theory Spec2Isabelle
  imports Main "HOL-Library.Word" "HOL-Library.Monad_Syntax" "HOL-Library.Sublist"
begin

unbundle bit_operations_syntax

section \<open>Memory: buffers, pointers, loads and stores\<close>

text \<open>
  The kernels of VOLK work on \<^verbatim>\<open>unsigned char\<close> buffers through raw pointers. A buffer is
  the list of its bytes, and a pointer into it is the offset of the byte it points to.
  Input and output buffers are separate objects, as the kernels' callers allocate them, so a
  store into the output buffer never changes an input buffer.

  Reading or writing outside a buffer is undefined behaviour in C, and an aligned vector
  access through a misaligned address faults. Both are the result \<open>None\<close>: a kernel call
  returns \<open>Some\<close> of the output buffer's final content only when every access it made was
  legal.

  An \<^verbatim>\<open>unsigned int\<close> is a \<open>32 word\<close>. The \<^verbatim>\<open>int\<close> loop counters of the
  exclusive-or kernels are \<open>32 word\<close> too: their arithmetic wraps in two's complement and
  they are compared with \<^verbatim>\<open>unsigned int\<close> bounds, which C does after converting them to
  \<^verbatim>\<open>unsigned int\<close>, so the comparison is the unsigned one of words.
\<close>

type_synonym byte = "8 word"
type_synonym buffer = "byte list"

definition load :: "buffer \<Rightarrow> nat \<Rightarrow> byte option" where
  "load buf p = (if p < length buf then Some (buf ! p) else None)"

definition store :: "buffer \<Rightarrow> nat \<Rightarrow> byte \<Rightarrow> buffer option" where
  "store buf p v = (if p < length buf then Some (buf[p := v]) else None)"

text \<open>The compound assignment \<^verbatim>\<open>*p |= v\<close>: a load, then a store.\<close>

definition store_or :: "buffer \<Rightarrow> nat \<Rightarrow> byte \<Rightarrow> buffer option" where
  "store_or buf p v = do { old \<leftarrow> load buf p; store buf p (old OR v) }"

text \<open>
  \<^verbatim>\<open>*((uint16_t*) p) = v\<close> and \<^verbatim>\<open>*((short*) p)\<close> on x86, the only machines with
  SSSE3: two bytes, the low one first.
\<close>

definition store_uint16 :: "buffer \<Rightarrow> nat \<Rightarrow> 16 word \<Rightarrow> buffer option" where
  "store_uint16 buf p v =
     (if p + 2 \<le> length buf then Some (buf[p := ucast v, p + 1 := ucast (drop_bit 8 v)])
      else None)"

definition load_short :: "buffer \<Rightarrow> nat \<Rightarrow> 16 word option" where
  "load_short buf p =
     (if p + 2 \<le> length buf then Some (ucast (buf ! p) OR push_bit 8 (ucast (buf ! (p + 1))))
      else None)"

section \<open>The vector intrinsics the kernels use\<close>

text \<open>
  The intrinsics come with the compiler, not with VOLK; they are written down here from
  Intel's reference. A 128-bit register is the list of its 16 bytes and a 256-bit register
  the list of its 32 bytes, byte 0 being the least significant one, which is also the one at
  the lowest address when the register is loaded from or stored to memory.
  \<^verbatim>\<open>_mm_set_epi8\<close> takes the most significant byte first.
\<close>

type_synonym m128i = "byte list"
type_synonym m256 = "byte list"

definition mm_set_epi8 ::
  "byte \<Rightarrow> byte \<Rightarrow> byte \<Rightarrow> byte \<Rightarrow> byte \<Rightarrow> byte \<Rightarrow> byte \<Rightarrow> byte \<Rightarrow>
   byte \<Rightarrow> byte \<Rightarrow> byte \<Rightarrow> byte \<Rightarrow> byte \<Rightarrow> byte \<Rightarrow> byte \<Rightarrow> byte \<Rightarrow> m128i" where
  "mm_set_epi8 e15 e14 e13 e12 e11 e10 e9 e8 e7 e6 e5 e4 e3 e2 e1 e0 =
     [e0, e1, e2, e3, e4, e5, e6, e7, e8, e9, e10, e11, e12, e13, e14, e15]"

definition mm_set1_epi8 :: "byte \<Rightarrow> m128i" where
  "mm_set1_epi8 a = replicate 16 a"

definition mm_set1_epi16 :: "16 word \<Rightarrow> m128i" where
  "mm_set1_epi16 a = concat (replicate 8 [ucast a, ucast (drop_bit 8 a)])"

definition mm_loadu_si128 :: "buffer \<Rightarrow> nat \<Rightarrow> m128i option" where
  "mm_loadu_si128 buf p = (if p + 16 \<le> length buf then Some (take 16 (drop p buf)) else None)"

definition mm_storeu_si128 :: "buffer \<Rightarrow> nat \<Rightarrow> m128i \<Rightarrow> buffer option" where
  "mm_storeu_si128 buf p v =
     (if p + 16 \<le> length buf then Some (take p buf @ take 16 v @ drop (p + 16) buf) else None)"

text \<open>
  \<^verbatim>\<open>_mm_shuffle_epi8(a, b)\<close>: byte \<open>i\<close> of the result is 0 when the top bit of byte \<open>i\<close>
  of \<open>b\<close> is set, and otherwise the byte of \<open>a\<close> selected by the low four bits of it.
\<close>

definition mm_shuffle_epi8 :: "m128i \<Rightarrow> m128i \<Rightarrow> m128i" where
  "mm_shuffle_epi8 a b = map (\<lambda>m. if bit m 7 then 0 else a ! unat (m AND 0x0F)) b"

definition mm_and_si128 :: "m128i \<Rightarrow> m128i \<Rightarrow> m128i" where
  "mm_and_si128 a b = map2 (AND) a b"

definition mm_cmpeq_epi8 :: "m128i \<Rightarrow> m128i \<Rightarrow> m128i" where
  "mm_cmpeq_epi8 a b = map2 (\<lambda>x y. if x = y then 0xFF else 0) a b"

text \<open>\<^verbatim>\<open>_mm_movemask_epi8\<close>: bit \<open>i\<close> of the \<^verbatim>\<open>int\<close> is the top bit of byte \<open>i\<close>.\<close>

definition mm_movemask_epi8 :: "m128i \<Rightarrow> 32 word" where
  "mm_movemask_epi8 a = horner_sum of_bool 2 (map (\<lambda>x. bit x 7) a)"

definition mm256_loadu_ps :: "buffer \<Rightarrow> nat \<Rightarrow> m256 option" where
  "mm256_loadu_ps buf p = (if p + 32 \<le> length buf then Some (take 32 (drop p buf)) else None)"

definition mm256_storeu_ps :: "buffer \<Rightarrow> nat \<Rightarrow> m256 \<Rightarrow> buffer option" where
  "mm256_storeu_ps buf p v =
     (if p + 32 \<le> length buf then Some (take p buf @ take 32 v @ drop (p + 32) buf) else None)"

text \<open>
  The aligned forms fault unless the address is a multiple of 32. The address of a byte is
  the address \<open>base\<close> of its buffer's first byte plus its offset.
\<close>

definition mm256_load_ps :: "nat \<Rightarrow> buffer \<Rightarrow> nat \<Rightarrow> m256 option" where
  "mm256_load_ps base buf p = (if 32 dvd base + p then mm256_loadu_ps buf p else None)"

definition mm256_store_ps :: "nat \<Rightarrow> buffer \<Rightarrow> nat \<Rightarrow> m256 \<Rightarrow> buffer option" where
  "mm256_store_ps base buf p v = (if 32 dvd base + p then mm256_storeu_ps buf p v else None)"

definition mm256_xor_ps :: "m256 \<Rightarrow> m256 \<Rightarrow> m256" where
  "mm256_xor_ps a b = map2 (XOR) a b"

section \<open>volk\_8u\_pack8\_8u\<close>

text \<open>
  \<^verbatim>\<open>pack_byte(out_buf, in_buf)\<close>: the output byte is cleared, then the lowest bit of each
  of eight input bytes is or-ed in, the first one at the top. The operands are promoted to
  \<^verbatim>\<open>int\<close> in C; no value here leaves the range of a byte.
\<close>

definition pack_byte :: "buffer \<Rightarrow> nat \<Rightarrow> buffer \<Rightarrow> nat \<Rightarrow> buffer option" where
  "pack_byte out_buf outputPtr in_buf inputPtr = do {
     m \<leftarrow> store out_buf outputPtr 0;
     b \<leftarrow> load in_buf inputPtr;
     m \<leftarrow> store_or m outputPtr (push_bit 7 (b AND 1));
     b \<leftarrow> load in_buf (inputPtr + 1);
     m \<leftarrow> store_or m outputPtr (push_bit 6 (b AND 1));
     b \<leftarrow> load in_buf (inputPtr + 2);
     m \<leftarrow> store_or m outputPtr (push_bit 5 (b AND 1));
     b \<leftarrow> load in_buf (inputPtr + 3);
     m \<leftarrow> store_or m outputPtr (push_bit 4 (b AND 1));
     b \<leftarrow> load in_buf (inputPtr + 4);
     m \<leftarrow> store_or m outputPtr (push_bit 3 (b AND 1));
     b \<leftarrow> load in_buf (inputPtr + 5);
     m \<leftarrow> store_or m outputPtr (push_bit 2 (b AND 1));
     b \<leftarrow> load in_buf (inputPtr + 6);
     m \<leftarrow> store_or m outputPtr (push_bit 1 (b AND 1));
     b \<leftarrow> load in_buf (inputPtr + 7);
     store_or m outputPtr (b AND 1)
   }"

text \<open>
  The scalar loop \<^verbatim>\<open>for(; byte < num_bytes; byte += 1)\<close>, which is the whole of the generic
  implementation and the tail of the SSSE3 ones.
\<close>

function pack8_loop ::
  "32 word \<Rightarrow> 32 word \<Rightarrow> buffer \<Rightarrow> nat \<Rightarrow> buffer \<Rightarrow> nat \<Rightarrow> buffer option" where
  "pack8_loop num_bytes byte out_buf outputPtr in_buf inputPtr =
     (if byte < num_bytes then do {
        m \<leftarrow> pack_byte out_buf outputPtr in_buf inputPtr;
        pack8_loop num_bytes (byte + 1) m (outputPtr + 1) in_buf (inputPtr + 8)
      } else Some out_buf)"
  by pat_completeness auto
termination
proof (relation "measure (\<lambda>(num_bytes, byte, _). unat num_bytes - unat byte)")
  fix num_bytes byte :: "32 word" and out_buf in_buf m :: buffer and outputPtr inputPtr :: nat
  assume "byte < num_bytes"
  then have lt: "unat byte < unat num_bytes"
    by (simp add: word_less_nat_alt)
  moreover have "unat num_bytes < 2 ^ 32"
    using unsigned_less [of num_bytes] by simp
  ultimately have "unat (byte + 1) = unat byte + 1"
    using unat_add_lem [of byte 1] by simp
  with lt show "((num_bytes, byte + 1, m, outputPtr + 1, in_buf, inputPtr + 8),
                 (num_bytes, byte, out_buf, outputPtr, in_buf, inputPtr))
        \<in> measure (\<lambda>(num_bytes, byte, _). unat num_bytes - unat byte)"
    by simp
qed simp

declare pack8_loop.simps [simp del]

definition volk_8u_pack8_8u_generic :: "buffer \<Rightarrow> buffer \<Rightarrow> 32 word \<Rightarrow> buffer option" where
  "volk_8u_pack8_8u_generic out_buf in_buf num_bytes =
     pack8_loop num_bytes 0 out_buf 0 in_buf 0"

definition pack8_reverse_mask :: m128i where
  "pack8_reverse_mask = mm_set_epi8 8 9 10 11 12 13 14 15 0 1 2 3 4 5 6 7"

definition pack8_bit_mask :: m128i where
  "pack8_bit_mask = mm_set1_epi8 0x01"

text \<open>
  The vector loop \<^verbatim>\<open>for(; byte < fast_num_bytes; byte += 2)\<close> of
  \<^verbatim>\<open>volk_8u_pack8_8u_u_ssse3\<close>, where \<^verbatim>\<open>fast_num_bytes = num_bytes & 0xFFffFFfe\<close> is a
  constant of the call. It hands the counter, the output buffer and both pointers on to the
  scalar tail.
\<close>

function pack8_ssse3_loop ::
  "32 word \<Rightarrow> 32 word \<Rightarrow> buffer \<Rightarrow> nat \<Rightarrow> buffer \<Rightarrow> nat \<Rightarrow>
   (32 word \<times> buffer \<times> nat \<times> nat) option" where
  "pack8_ssse3_loop num_bytes byte out_buf outputPtr in_buf inputPtr =
     (if byte < (num_bytes AND 0xFFFFFFFE) then do {
        loaded \<leftarrow> mm_loadu_si128 in_buf inputPtr;
        let loaded = mm_shuffle_epi8 loaded pack8_reverse_mask;
        let loaded = mm_and_si128 loaded pack8_bit_mask;
        let compared = mm_cmpeq_epi8 loaded pack8_bit_mask;
        m \<leftarrow> store_uint16 out_buf outputPtr (ucast (mm_movemask_epi8 compared));
        pack8_ssse3_loop num_bytes (byte + 2) m (outputPtr + 2) in_buf (inputPtr + 16)
      } else Some (byte, out_buf, outputPtr, inputPtr))"
  by pat_completeness auto
termination
proof (relation "measure (\<lambda>(num_bytes, byte, _). unat (num_bytes AND 0xFFFFFFFE) - unat byte)")
  fix num_bytes byte :: "32 word" and out_buf in_buf m :: buffer and outputPtr inputPtr :: nat
  assume "byte < num_bytes AND 0xFFFFFFFE"
  then have lt: "unat byte < unat (num_bytes AND 0xFFFFFFFE)"
    by (simp add: word_less_nat_alt)
  moreover have "unat (num_bytes AND 0xFFFFFFFE) \<le> unat (0xFFFFFFFE :: 32 word)"
    using word_and_le1 [of num_bytes "0xFFFFFFFE"] by (simp only: word_le_nat_alt)
  ultimately have "unat (byte + 2) = unat byte + 2"
    using unat_add_lem [of byte 2] by simp
  with lt show "((num_bytes, byte + 2, m, outputPtr + 2, in_buf, inputPtr + 16),
                 (num_bytes, byte, out_buf, outputPtr, in_buf, inputPtr))
        \<in> measure (\<lambda>(num_bytes, byte, _). unat (num_bytes AND 0xFFFFFFFE) - unat byte)"
    by simp
qed simp

declare pack8_ssse3_loop.simps [simp del]

definition volk_8u_pack8_8u_u_ssse3 :: "buffer \<Rightarrow> buffer \<Rightarrow> 32 word \<Rightarrow> buffer option" where
  "volk_8u_pack8_8u_u_ssse3 out_buf in_buf num_bytes = do {
     (byte, m, outputPtr, inputPtr) \<leftarrow> pack8_ssse3_loop num_bytes 0 out_buf 0 in_buf 0;
     pack8_loop num_bytes byte m outputPtr in_buf inputPtr
   }"

text \<open>The puppet of the test harness, \<^verbatim>\<open>volk_8u_pack8puppet_8u_generic\<close>.\<close>

definition volk_8u_pack8puppet_8u_generic :: "buffer \<Rightarrow> buffer \<Rightarrow> 32 word \<Rightarrow> buffer option" where
  "volk_8u_pack8puppet_8u_generic out_buf in_buf num_bytes =
     volk_8u_pack8_8u_generic out_buf in_buf (num_bytes div 8)"

section \<open>volk\_8u\_unpack8\_8u\<close>

text \<open>
  \<^verbatim>\<open>unpack_byte(out_buf, in_buf)\<close>: eight output bytes, each one bit of the input byte,
  the top bit first.
\<close>

definition unpack_byte :: "buffer \<Rightarrow> nat \<Rightarrow> buffer \<Rightarrow> nat \<Rightarrow> buffer option" where
  "unpack_byte out_buf outputPtr in_buf inputPtr = do {
     b \<leftarrow> load in_buf inputPtr;
     m \<leftarrow> store out_buf outputPtr (drop_bit 7 (b AND 0x80));
     b \<leftarrow> load in_buf inputPtr;
     m \<leftarrow> store m (outputPtr + 1) (drop_bit 6 (b AND 0x40));
     b \<leftarrow> load in_buf inputPtr;
     m \<leftarrow> store m (outputPtr + 2) (drop_bit 5 (b AND 0x20));
     b \<leftarrow> load in_buf inputPtr;
     m \<leftarrow> store m (outputPtr + 3) (drop_bit 4 (b AND 0x10));
     b \<leftarrow> load in_buf inputPtr;
     m \<leftarrow> store m (outputPtr + 4) (drop_bit 3 (b AND 0x08));
     b \<leftarrow> load in_buf inputPtr;
     m \<leftarrow> store m (outputPtr + 5) (drop_bit 2 (b AND 0x04));
     b \<leftarrow> load in_buf inputPtr;
     m \<leftarrow> store m (outputPtr + 6) (drop_bit 1 (b AND 0x02));
     b \<leftarrow> load in_buf inputPtr;
     store m (outputPtr + 7) (b AND 0x01)
   }"

text \<open>The scalar loop \<^verbatim>\<open>for(; byte < num_bytes; ++byte)\<close>.\<close>

function unpack8_loop ::
  "32 word \<Rightarrow> 32 word \<Rightarrow> buffer \<Rightarrow> nat \<Rightarrow> buffer \<Rightarrow> nat \<Rightarrow> buffer option" where
  "unpack8_loop num_bytes byte out_buf outputPtr in_buf inputPtr =
     (if byte < num_bytes then do {
        m \<leftarrow> unpack_byte out_buf outputPtr in_buf inputPtr;
        unpack8_loop num_bytes (byte + 1) m (outputPtr + 8) in_buf (inputPtr + 1)
      } else Some out_buf)"
  by pat_completeness auto
termination
proof (relation "measure (\<lambda>(num_bytes, byte, _). unat num_bytes - unat byte)")
  fix num_bytes byte :: "32 word" and out_buf in_buf m :: buffer and outputPtr inputPtr :: nat
  assume "byte < num_bytes"
  then have lt: "unat byte < unat num_bytes"
    by (simp add: word_less_nat_alt)
  moreover have "unat num_bytes < 2 ^ 32"
    using unsigned_less [of num_bytes] by simp
  ultimately have "unat (byte + 1) = unat byte + 1"
    using unat_add_lem [of byte 1] by simp
  with lt show "((num_bytes, byte + 1, m, outputPtr + 8, in_buf, inputPtr + 1),
                 (num_bytes, byte, out_buf, outputPtr, in_buf, inputPtr))
        \<in> measure (\<lambda>(num_bytes, byte, _). unat num_bytes - unat byte)"
    by simp
qed simp

declare unpack8_loop.simps [simp del]

definition volk_8u_unpack8_8u_generic :: "buffer \<Rightarrow> buffer \<Rightarrow> 32 word \<Rightarrow> buffer option" where
  "volk_8u_unpack8_8u_generic out_buf in_buf num_bytes =
     unpack8_loop num_bytes 0 out_buf 0 in_buf 0"

definition unpack8_reverse_mask :: m128i where
  "unpack8_reverse_mask = mm_set_epi8 1 3 5 7 9 11 13 15 0 2 4 6 8 10 12 14"

definition unpack8_bit_mask :: m128i where
  "unpack8_bit_mask =
     mm_set_epi8 0x01 0x02 0x04 0x08 0x10 0x20 0x40 0x80 0x01 0x02 0x04 0x08 0x10 0x20 0x40 0x80"

definition unpack8_ones :: m128i where
  "unpack8_ones = mm_set1_epi8 1"

text \<open>
  The vector loop \<^verbatim>\<open>for(byte = 0; byte < fast_num_bytes; byte += 2)\<close> of
  \<^verbatim>\<open>volk_8u_unpack8_8u_u_ssse3\<close>, with \<^verbatim>\<open>fast_num_bytes = num_bytes & 0xFFffFFfe\<close>.
\<close>

function unpack8_ssse3_loop ::
  "32 word \<Rightarrow> 32 word \<Rightarrow> buffer \<Rightarrow> nat \<Rightarrow> buffer \<Rightarrow> nat \<Rightarrow>
   (32 word \<times> buffer \<times> nat \<times> nat) option" where
  "unpack8_ssse3_loop num_bytes byte out_buf outputPtr in_buf inputPtr =
     (if byte < (num_bytes AND 0xFFFFFFFE) then do {
        s \<leftarrow> load_short in_buf inputPtr;
        let loaded = mm_set1_epi16 s;
        let loaded = mm_shuffle_epi8 loaded unpack8_reverse_mask;
        let loaded = mm_and_si128 loaded unpack8_bit_mask;
        let loaded = mm_cmpeq_epi8 loaded unpack8_bit_mask;
        let loaded = mm_and_si128 loaded unpack8_ones;
        m \<leftarrow> mm_storeu_si128 out_buf outputPtr loaded;
        unpack8_ssse3_loop num_bytes (byte + 2) m (outputPtr + 16) in_buf (inputPtr + 2)
      } else Some (byte, out_buf, outputPtr, inputPtr))"
  by pat_completeness auto
termination
proof (relation "measure (\<lambda>(num_bytes, byte, _). unat (num_bytes AND 0xFFFFFFFE) - unat byte)")
  fix num_bytes byte :: "32 word" and out_buf in_buf m :: buffer and outputPtr inputPtr :: nat
  assume "byte < num_bytes AND 0xFFFFFFFE"
  then have lt: "unat byte < unat (num_bytes AND 0xFFFFFFFE)"
    by (simp add: word_less_nat_alt)
  moreover have "unat (num_bytes AND 0xFFFFFFFE) \<le> unat (0xFFFFFFFE :: 32 word)"
    using word_and_le1 [of num_bytes "0xFFFFFFFE"] by (simp only: word_le_nat_alt)
  ultimately have "unat (byte + 2) = unat byte + 2"
    using unat_add_lem [of byte 2] by simp
  with lt show "((num_bytes, byte + 2, m, outputPtr + 16, in_buf, inputPtr + 2),
                 (num_bytes, byte, out_buf, outputPtr, in_buf, inputPtr))
        \<in> measure (\<lambda>(num_bytes, byte, _). unat (num_bytes AND 0xFFFFFFFE) - unat byte)"
    by simp
qed simp

declare unpack8_ssse3_loop.simps [simp del]

definition volk_8u_unpack8_8u_u_ssse3 :: "buffer \<Rightarrow> buffer \<Rightarrow> 32 word \<Rightarrow> buffer option" where
  "volk_8u_unpack8_8u_u_ssse3 out_buf in_buf num_bytes = do {
     (byte, m, outputPtr, inputPtr) \<leftarrow> unpack8_ssse3_loop num_bytes 0 out_buf 0 in_buf 0;
     unpack8_loop num_bytes byte m outputPtr in_buf inputPtr
   }"

section \<open>volk\_8u\_x2\_exor\_8u\<close>

text \<open>
  The scalar loop \<^verbatim>\<open>for(; i < num_bytes; ++i)\<close> with the body
  \<^verbatim>\<open>*outputVector++ = *inputVector0++ ^ *inputVector1++\<close>: the whole of the generic
  implementation and the tail of the AVX ones.
\<close>

function exor_loop ::
  "32 word \<Rightarrow> 32 word \<Rightarrow> buffer \<Rightarrow> nat \<Rightarrow> buffer \<Rightarrow> nat \<Rightarrow> buffer \<Rightarrow> nat \<Rightarrow>
   buffer option" where
  "exor_loop num_bytes i out_buf outputVector in0 inputVector0 in1 inputVector1 =
     (if i < num_bytes then do {
        a \<leftarrow> load in0 inputVector0;
        b \<leftarrow> load in1 inputVector1;
        m \<leftarrow> store out_buf outputVector (a XOR b);
        exor_loop num_bytes (i + 1) m (outputVector + 1) in0 (inputVector0 + 1)
          in1 (inputVector1 + 1)
      } else Some out_buf)"
  by pat_completeness auto
termination
proof (relation "measure (\<lambda>(num_bytes, i, _). unat num_bytes - unat i)")
  fix num_bytes i :: "32 word" and out_buf in0 in1 m :: buffer
    and outputVector inputVector0 inputVector1 :: nat
  assume "i < num_bytes"
  then have lt: "unat i < unat num_bytes"
    by (simp add: word_less_nat_alt)
  moreover have "unat num_bytes < 2 ^ 32"
    using unsigned_less [of num_bytes] by simp
  ultimately have "unat (i + 1) = unat i + 1"
    using unat_add_lem [of i 1] by simp
  with lt show "((num_bytes, i + 1, m, outputVector + 1, in0, inputVector0 + 1, in1,
                  inputVector1 + 1),
                 (num_bytes, i, out_buf, outputVector, in0, inputVector0, in1, inputVector1))
        \<in> measure (\<lambda>(num_bytes, i, _). unat num_bytes - unat i)"
    by simp
qed simp

declare exor_loop.simps [simp del]

definition volk_8u_x2_exor_8u_generic ::
  "buffer \<Rightarrow> buffer \<Rightarrow> buffer \<Rightarrow> 32 word \<Rightarrow> buffer option" where
  "volk_8u_x2_exor_8u_generic out_buf in0 in1 num_bytes =
     exor_loop num_bytes 0 out_buf 0 in0 0 in1 0"

text \<open>
  The vector loop \<^verbatim>\<open>for(i = 0; i < num_32_bytes; i += 32)\<close> of
  \<^verbatim>\<open>volk_8u_x2_exor_8u_u_avx\<close>, with \<^verbatim>\<open>num_32_bytes = num_bytes / 32\<close>. The counter
  advances by 32 in each round, as the three pointers do.
\<close>

function exor_u_avx_loop ::
  "32 word \<Rightarrow> 32 word \<Rightarrow> buffer \<Rightarrow> nat \<Rightarrow> buffer \<Rightarrow> nat \<Rightarrow> buffer \<Rightarrow> nat \<Rightarrow>
   (32 word \<times> buffer \<times> nat \<times> nat \<times> nat) option" where
  "exor_u_avx_loop num_bytes i out_buf outputVector in0 inputVector0 in1 inputVector1 =
     (if i < num_bytes div 32 then do {
        src0 \<leftarrow> mm256_loadu_ps in0 inputVector0;
        src1 \<leftarrow> mm256_loadu_ps in1 inputVector1;
        let dst = mm256_xor_ps src0 src1;
        m \<leftarrow> mm256_storeu_ps out_buf outputVector dst;
        exor_u_avx_loop num_bytes (i + 32) m (outputVector + 32) in0 (inputVector0 + 32)
          in1 (inputVector1 + 32)
      } else Some (i, out_buf, outputVector, inputVector0, inputVector1))"
  by pat_completeness auto
termination
proof (relation "measure (\<lambda>(num_bytes, i, _). unat (num_bytes div 32) - unat i)")
  fix num_bytes i :: "32 word" and out_buf in0 in1 m :: buffer
    and outputVector inputVector0 inputVector1 :: nat
  assume "i < num_bytes div 32"
  then have lt: "unat i < unat (num_bytes div 32)"
    by (simp add: word_less_nat_alt)
  moreover have "unat (num_bytes div 32) = unat num_bytes div 32"
    by (simp add: unat_div)
  moreover have "unat num_bytes < 2 ^ 32"
    using unsigned_less [of num_bytes] by simp
  ultimately have "unat i + unat (32 :: 32 word) < 2 ^ LENGTH(32)"
    by simp
  then have "unat (i + 32) = unat i + 32"
    using unat_add_lem [of i 32] by simp
  with lt show "((num_bytes, i + 32, m, outputVector + 32, in0, inputVector0 + 32, in1,
                  inputVector1 + 32),
                 (num_bytes, i, out_buf, outputVector, in0, inputVector0, in1, inputVector1))
        \<in> measure (\<lambda>(num_bytes, i, _). unat (num_bytes div 32) - unat i)"
    by simp
qed simp

declare exor_u_avx_loop.simps [simp del]

definition volk_8u_x2_exor_8u_u_avx ::
  "buffer \<Rightarrow> buffer \<Rightarrow> buffer \<Rightarrow> 32 word \<Rightarrow> buffer option" where
  "volk_8u_x2_exor_8u_u_avx out_buf in0 in1 num_bytes = do {
     (i, m, outputVector, inputVector0, inputVector1) \<leftarrow>
       exor_u_avx_loop num_bytes 0 out_buf 0 in0 0 in1 0;
     exor_loop num_bytes i m outputVector in0 inputVector0 in1 inputVector1
   }"

text \<open>
  \<^verbatim>\<open>volk_8u_x2_exor_8u_a_avx\<close> is the same code with the aligned load and store, which
  depend on where the three buffers lie: \<open>out_addr\<close>, \<open>in0_addr\<close> and \<open>in1_addr\<close> are
  the addresses the three pointer arguments hold.
\<close>

function exor_a_avx_loop ::
  "nat \<Rightarrow> nat \<Rightarrow> nat \<Rightarrow> 32 word \<Rightarrow> 32 word \<Rightarrow> buffer \<Rightarrow> nat \<Rightarrow> buffer \<Rightarrow> nat \<Rightarrow>
   buffer \<Rightarrow> nat \<Rightarrow> (32 word \<times> buffer \<times> nat \<times> nat \<times> nat) option" where
  "exor_a_avx_loop out_addr in0_addr in1_addr num_bytes i out_buf outputVector
       in0 inputVector0 in1 inputVector1 =
     (if i < num_bytes div 32 then do {
        src0 \<leftarrow> mm256_load_ps in0_addr in0 inputVector0;
        src1 \<leftarrow> mm256_load_ps in1_addr in1 inputVector1;
        let dst = mm256_xor_ps src0 src1;
        m \<leftarrow> mm256_store_ps out_addr out_buf outputVector dst;
        exor_a_avx_loop out_addr in0_addr in1_addr num_bytes (i + 32) m (outputVector + 32)
          in0 (inputVector0 + 32) in1 (inputVector1 + 32)
      } else Some (i, out_buf, outputVector, inputVector0, inputVector1))"
  by pat_completeness auto
termination
proof (relation "measure (\<lambda>(out_addr, in0_addr, in1_addr, num_bytes, i, _).
                   unat (num_bytes div 32) - unat i)")
  fix num_bytes i :: "32 word" and out_buf in0 in1 m :: buffer
    and out_addr in0_addr in1_addr outputVector inputVector0 inputVector1 :: nat
  assume "i < num_bytes div 32"
  then have lt: "unat i < unat (num_bytes div 32)"
    by (simp add: word_less_nat_alt)
  moreover have "unat (num_bytes div 32) = unat num_bytes div 32"
    by (simp add: unat_div)
  moreover have "unat num_bytes < 2 ^ 32"
    using unsigned_less [of num_bytes] by simp
  ultimately have "unat i + unat (32 :: 32 word) < 2 ^ LENGTH(32)"
    by simp
  then have "unat (i + 32) = unat i + 32"
    using unat_add_lem [of i 32] by simp
  with lt show "((out_addr, in0_addr, in1_addr, num_bytes, i + 32, m, outputVector + 32,
                  in0, inputVector0 + 32, in1, inputVector1 + 32),
                 (out_addr, in0_addr, in1_addr, num_bytes, i, out_buf, outputVector,
                  in0, inputVector0, in1, inputVector1))
        \<in> measure (\<lambda>(out_addr, in0_addr, in1_addr, num_bytes, i, _).
                     unat (num_bytes div 32) - unat i)"
    by simp
qed simp

declare exor_a_avx_loop.simps [simp del]

definition volk_8u_x2_exor_8u_a_avx ::
  "nat \<Rightarrow> nat \<Rightarrow> nat \<Rightarrow> buffer \<Rightarrow> buffer \<Rightarrow> buffer \<Rightarrow> 32 word \<Rightarrow> buffer option" where
  "volk_8u_x2_exor_8u_a_avx out_addr in0_addr in1_addr out_buf in0 in1 num_bytes = do {
     (i, m, outputVector, inputVector0, inputVector1) \<leftarrow>
       exor_a_avx_loop out_addr in0_addr in1_addr num_bytes 0 out_buf 0 in0 0 in1 0;
     exor_loop num_bytes i m outputVector in0 inputVector0 in1 inputVector1
   }"

section \<open>The kernel headers and their implementations\<close>

text \<open>
  A kernel header declares the implementations of one operation, each inside a
  preprocessor guard that names the \<^verbatim>\<open>LV_HAVE_\<close> macros it needs; the function
  \<^verbatim>\<open>volk_32f_asin_32f_a_avx2_fma\<close> under \<^verbatim>\<open>#if LV_HAVE_AVX2 && LV_HAVE_FMA\<close> is the
  implementation \<open>a_avx2_fma\<close> of the kernel \<open>volk_32f_asin_32f\<close> with two guards.
  \<^verbatim>\<open>LV_HAVE_GENERIC\<close> is defined on every machine: an implementation guarded by it alone
  needs no instruction-set extension. The eight headers of the repository follow, their
  implementations in the order of declaration.
\<close>

record implementation =
  impl :: string
  guards :: "string list"

record kernel_header =
  kernel_name :: string
  impls :: "implementation list"

definition volk_32fc_32f_add_32fc_h :: kernel_header where
  "volk_32fc_32f_add_32fc_h =
     \<lparr>kernel_name = ''volk_32fc_32f_add_32fc'',
      impls =
       [\<lparr>impl = ''generic'', guards = [''LV_HAVE_GENERIC'']\<rparr>,
        \<lparr>impl = ''u_avx'', guards = [''LV_HAVE_AVX'']\<rparr>,
        \<lparr>impl = ''a_avx'', guards = [''LV_HAVE_AVX'']\<rparr>,
        \<lparr>impl = ''neon'', guards = [''LV_HAVE_NEON'']\<rparr>,
        \<lparr>impl = ''rvv'', guards = [''LV_HAVE_RVV'']\<rparr>]\<rparr>"

definition volk_32fc_s32f_atan2_32f_h :: kernel_header where
  "volk_32fc_s32f_atan2_32f_h =
     \<lparr>kernel_name = ''volk_32fc_s32f_atan2_32f'',
      impls =
       [\<lparr>impl = ''generic'', guards = [''LV_HAVE_GENERIC'']\<rparr>,
        \<lparr>impl = ''polynomial'', guards = [''LV_HAVE_GENERIC'']\<rparr>,
        \<lparr>impl = ''a_avx2_fma'', guards = [''LV_HAVE_AVX2'', ''LV_HAVE_FMA'']\<rparr>,
        \<lparr>impl = ''a_avx2'', guards = [''LV_HAVE_AVX2'']\<rparr>,
        \<lparr>impl = ''u_avx2_fma'', guards = [''LV_HAVE_AVX2'', ''LV_HAVE_FMA'']\<rparr>,
        \<lparr>impl = ''u_avx2'', guards = [''LV_HAVE_AVX2'']\<rparr>,
        \<lparr>impl = ''rvv'', guards = [''LV_HAVE_RVV'']\<rparr>,
        \<lparr>impl = ''rvvseg'', guards = [''LV_HAVE_RVVSEG'']\<rparr>]\<rparr>"

definition volk_8u_pack8_8u_h :: kernel_header where
  "volk_8u_pack8_8u_h =
     \<lparr>kernel_name = ''volk_8u_pack8_8u'',
      impls =
       [\<lparr>impl = ''generic'', guards = [''LV_HAVE_GENERIC'']\<rparr>,
        \<lparr>impl = ''u_ssse3'', guards = [''LV_HAVE_SSSE3'']\<rparr>,
        \<lparr>impl = ''a_ssse3'', guards = [''LV_HAVE_SSSE3'']\<rparr>]\<rparr>"

definition volk_8u_x2_exor_8u_h :: kernel_header where
  "volk_8u_x2_exor_8u_h =
     \<lparr>kernel_name = ''volk_8u_x2_exor_8u'',
      impls =
       [\<lparr>impl = ''generic'', guards = [''LV_HAVE_GENERIC'']\<rparr>,
        \<lparr>impl = ''u_avx'', guards = [''LV_HAVE_AVX'']\<rparr>,
        \<lparr>impl = ''a_avx'', guards = [''LV_HAVE_AVX'']\<rparr>]\<rparr>"

definition volk_8u_unpack8_8u_h :: kernel_header where
  "volk_8u_unpack8_8u_h =
     \<lparr>kernel_name = ''volk_8u_unpack8_8u'',
      impls =
       [\<lparr>impl = ''generic'', guards = [''LV_HAVE_GENERIC'']\<rparr>,
        \<lparr>impl = ''u_ssse3'', guards = [''LV_HAVE_SSSE3'']\<rparr>]\<rparr>"

definition volk_32f_asin_32f_h :: kernel_header where
  "volk_32f_asin_32f_h =
     \<lparr>kernel_name = ''volk_32f_asin_32f'',
      impls =
       [\<lparr>impl = ''a_avx2_fma'', guards = [''LV_HAVE_AVX2'', ''LV_HAVE_FMA'']\<rparr>,
        \<lparr>impl = ''a_avx'', guards = [''LV_HAVE_AVX'']\<rparr>,
        \<lparr>impl = ''a_sse4_1'', guards = [''LV_HAVE_SSE4_1'']\<rparr>,
        \<lparr>impl = ''u_avx2_fma'', guards = [''LV_HAVE_AVX2'', ''LV_HAVE_FMA'']\<rparr>,
        \<lparr>impl = ''u_avx'', guards = [''LV_HAVE_AVX'']\<rparr>,
        \<lparr>impl = ''u_sse4_1'', guards = [''LV_HAVE_SSE4_1'']\<rparr>,
        \<lparr>impl = ''generic'', guards = [''LV_HAVE_GENERIC'']\<rparr>,
        \<lparr>impl = ''rvv'', guards = [''LV_HAVE_RVV'']\<rparr>]\<rparr>"

definition volk_8u_unpack8puppet_8u_h :: kernel_header where
  "volk_8u_unpack8puppet_8u_h =
     \<lparr>kernel_name = ''volk_8u_unpack8puppet_8u'',
      impls =
       [\<lparr>impl = ''generic'', guards = [''LV_HAVE_GENERIC'']\<rparr>,
        \<lparr>impl = ''u_ssse3'', guards = [''LV_HAVE_SSSE3'']\<rparr>]\<rparr>"

definition volk_8u_pack8puppet_8u_h :: kernel_header where
  "volk_8u_pack8puppet_8u_h =
     \<lparr>kernel_name = ''volk_8u_pack8puppet_8u'',
      impls =
       [\<lparr>impl = ''generic'', guards = [''LV_HAVE_GENERIC'']\<rparr>,
        \<lparr>impl = ''u_ssse3'', guards = [''LV_HAVE_SSSE3'']\<rparr>,
        \<lparr>impl = ''a_ssse3'', guards = [''LV_HAVE_SSSE3'']\<rparr>]\<rparr>"

definition kernel_headers :: "kernel_header list" where
  "kernel_headers =
     [volk_32fc_32f_add_32fc_h, volk_32fc_s32f_atan2_32f_h, volk_8u_pack8_8u_h,
      volk_8u_x2_exor_8u_h, volk_8u_unpack8_8u_h, volk_32f_asin_32f_h,
      volk_8u_unpack8puppet_8u_h, volk_8u_pack8puppet_8u_h]"

definition extension_free :: "implementation \<Rightarrow> bool" where
  "extension_free v = (guards v = [''LV_HAVE_GENERIC''])"

definition extension_free_impls :: "kernel_header \<Rightarrow> implementation list" where
  "extension_free_impls k = filter extension_free (impls k)"

section \<open>The selector\<close>

text \<open>
  The function that ranks the implementations of a kernel is not among the sources at hand;
  the specification describes it, and the definitions of this section follow its words.
\<close>

text \<open>
  Modelled from the spec: the data model of the selector, which is the extension as an
  opaque named token, the alignment requirement \<open>{None, RequiresAligned}\<close> (its
  \<open>None\<close> is \<open>NoAlignment\<close> here), the variant with its optional required extension,
  the kernel descriptor with its variants in the order of declaration, and the capability
  set of the host. The function handle of a variant plays no part in the ranking and is
  left out.
\<close>

type_synonym extension = string

datatype alignment_requirement = NoAlignment | RequiresAligned

record variant =
  impl_name :: string
  required_extension :: "extension option"
  alignment :: alignment_requirement

record kernel_descriptor =
  operation_name :: string
  variants :: "variant list"

record capability_set =
  extensions :: "extension set"
  alignment_boundary :: nat

datatype selector_error = RegistryInvariantViolation

text \<open>
  Modelled from the spec: the registry invariant, "for every Kernel Descriptor, exactly one
  Variant has \<open>required_extension = None\<close>".
\<close>

definition registry_invariant :: "kernel_descriptor \<Rightarrow> bool" where
  "registry_invariant d =
     (length (filter (\<lambda>v. required_extension v = None) (variants d)) = 1)"

text \<open>
  Modelled from the spec: step 1 of \<open>rank\<close>, "filter variants whose
  \<open>required_extension\<close> is \<open>None\<close> or is a member of \<open>caps\<close>".
\<close>

definition extension_available :: "capability_set \<Rightarrow> variant \<Rightarrow> bool" where
  "extension_available caps v =
     (case required_extension v of None \<Rightarrow> True | Some e \<Rightarrow> e \<in> extensions caps)"

text \<open>
  Modelled from the spec: step 2 of \<open>rank\<close>, "if \<open>alignment_hint = RequiresAligned\<close>, all
  variants are eligible; if \<open>alignment_hint = None\<close>, variants requiring
  \<open>RequiresAligned\<close> are excluded".
\<close>

definition alignment_eligible :: "alignment_requirement \<Rightarrow> variant \<Rightarrow> bool" where
  "alignment_eligible alignment_hint v =
     (alignment_hint = RequiresAligned \<or> alignment v \<noteq> RequiresAligned)"

text \<open>
  Modelled from the spec: step 3 of \<open>rank\<close>, the order of preference. The preference
  among extensions is a parameter, the topological rank \<open>pref\<close> of an extension in the
  preference graph, a larger rank being a faster extension. A variant that needs a faster
  extension sorts first, the variant without extension last, and the sort is stable, so
  that the order of declaration breaks ties.
\<close>

definition preference_key :: "(extension \<Rightarrow> nat) \<Rightarrow> variant \<Rightarrow> int" where
  "preference_key pref v =
     (case required_extension v of None \<Rightarrow> 1 | Some e \<Rightarrow> - int (pref e))"

text \<open>
  Modelled from the spec: \<open>rank(descriptor, caps, alignment_hint)\<close>, steps 1 to 3, and the
  edge case "if no variant's \<open>required_extension\<close> is satisfied, fail with a
  \<open>RegistryInvariantViolation\<close>".
\<close>

definition rank ::
  "(extension \<Rightarrow> nat) \<Rightarrow> kernel_descriptor \<Rightarrow> capability_set \<Rightarrow> alignment_requirement \<Rightarrow>
   selector_error + variant list" where
  "rank pref descriptor caps alignment_hint =
     (let available = filter (extension_available caps) (variants descriptor)
      in if available = [] then Inl RegistryInvariantViolation
         else Inr (sort_key (preference_key pref)
                     (filter (alignment_eligible alignment_hint) available)))"

section \<open>The benchmark harness\<close>

text \<open>
  \<^verbatim>\<open>impl_name.find("a_")\<close> of \<^verbatim>\<open>std::string\<close>: the first position at which the
  pattern occurs, \<open>None\<close> for \<^verbatim>\<open>npos\<close>.
\<close>

fun string_find :: "string \<Rightarrow> string \<Rightarrow> nat option" where
  "string_find [] pat = (if pat = [] then Some 0 else None)"
| "string_find (c # cs) pat =
     (if prefix pat (c # cs) then Some 0 else map_option Suc (string_find cs pat))"

text \<open>
  What a benchmark function sets up for the call of the kernel it measures: the number of
  elements of each buffer it allocates, the element each pointer it passes points to, and
  the number of elements it asks the kernel to process. \<^verbatim>\<open>size_t\<close> is 64 bits wide.
\<close>

record kernel_call =
  buffer_sizes :: "64 word list"
  pointers :: "nat list"
  num_points :: "64 word"

text \<open>
  \<^verbatim>\<open>BM_volk_32fc_x2_multiply_32fc\<close>: the buffers are \<open>result\<close>, \<open>in0\<close> and \<open>in1\<close>,
  in this order. Each pointer starts at the element 0 of its buffer (\<^verbatim>\<open>data()\<close>) and is
  advanced by one element when the implementation is not an aligned one.
\<close>

definition BM_volk_32fc_x2_multiply_32fc :: "string \<Rightarrow> 64 word \<Rightarrow> kernel_call" where
  "BM_volk_32fc_x2_multiply_32fc impl_name' vector_length =
     (let is_aligned = (string_find impl_name' ''a_'' \<noteq> None);
          ref_length = (if is_aligned then vector_length + 1 else vector_length);
          res_ptr = (if \<not> is_aligned then 0 + 1 else 0);
          in0_ptr = (if \<not> is_aligned then 0 + 1 else 0);
          in1_ptr = (if \<not> is_aligned then 0 + 1 else 0)
      in \<lparr>buffer_sizes = [ref_length, ref_length, ref_length],
          pointers = [res_ptr, in0_ptr, in1_ptr],
          num_points = vector_length\<rparr>)"

text \<open>\<^verbatim>\<open>BM_volk_32f_s32f_multiply_32f\<close>: the buffers are \<open>result\<close> and \<open>in0\<close>.\<close>

definition BM_volk_32f_s32f_multiply_32f :: "string \<Rightarrow> 64 word \<Rightarrow> kernel_call" where
  "BM_volk_32f_s32f_multiply_32f impl_name' vector_length =
     (let is_aligned = (string_find impl_name' ''a_'' \<noteq> None);
          ref_length = (if is_aligned then vector_length + 1 else vector_length);
          res_ptr = (if \<not> is_aligned then 0 + 1 else 0);
          in0_ptr = (if \<not> is_aligned then 0 + 1 else 0)
      in \<lparr>buffer_sizes = [ref_length, ref_length],
          pointers = [res_ptr, in0_ptr],
          num_points = vector_length\<rparr>)"

text \<open>
  Modelled from the spec: the kernels \<^verbatim>\<open>volk_32fc_x2_multiply_32fc\<close> and
  \<^verbatim>\<open>volk_32f_s32f_multiply_32f\<close>, whose sources are not at hand, read and write the
  elements \<open>0\<close> to \<open>num_points - 1\<close> from each pointer they are given. The call stays
  inside the buffers when the last of these elements lies inside each buffer.
\<close>

definition call_in_bounds :: "kernel_call \<Rightarrow> bool" where
  "call_in_bounds c =
     list_all2
       (\<lambda>allocated p. num_points c = 0 \<or> p + (unat (num_points c) - 1) < unat allocated)
       (buffer_sizes c) (pointers c)"

section \<open>The values the kernels write\<close>

text \<open>
  The byte \<^verbatim>\<open>pack_byte\<close> makes of the eight input bytes from offset \<open>p\<close> on. The
  theorems below state the content of an output buffer with it.
\<close>

definition packed :: "buffer \<Rightarrow> nat \<Rightarrow> byte" where
  "packed in_buf p =
     push_bit 7 (in_buf ! p AND 1) OR push_bit 6 (in_buf ! (p + 1) AND 1) OR
     push_bit 5 (in_buf ! (p + 2) AND 1) OR push_bit 4 (in_buf ! (p + 3) AND 1) OR
     push_bit 3 (in_buf ! (p + 4) AND 1) OR push_bit 2 (in_buf ! (p + 5) AND 1) OR
     push_bit 1 (in_buf ! (p + 6) AND 1) OR (in_buf ! (p + 7) AND 1)"

text \<open>The eight bytes \<^verbatim>\<open>unpack_byte\<close> makes of the input byte \<open>b\<close>.\<close>

definition unpacked :: "byte \<Rightarrow> byte list" where
  "unpacked b =
     [drop_bit 7 (b AND 0x80), drop_bit 6 (b AND 0x40), drop_bit 5 (b AND 0x20),
      drop_bit 4 (b AND 0x10), drop_bit 3 (b AND 0x08), drop_bit 2 (b AND 0x04),
      drop_bit 1 (b AND 0x02), b AND 0x01]"

text \<open>A preference among extensions that ranks them all alike, for examples.\<close>

definition no_preference :: "extension \<Rightarrow> nat" where
  "no_preference e = 0"

section \<open>Words, bits and lists\<close>

lemma unat_word_Suc: "(b :: 32 word) < n \<Longrightarrow> unat (b + 1) = Suc (unat b)"
proof -
  assume "b < n"
  then have "unat b < unat n" by (simp add: word_less_nat_alt)
  moreover have "unat n < 2 ^ 32" using unsigned_less [of n] by simp
  ultimately show ?thesis using unat_add_lem [of b 1] by simp
qed

lemma fast_le: "unat (n AND 0xFFFFFFFE :: 32 word) \<le> unat n"
  using word_and_le2 [of n "0xFFFFFFFE"] by (simp only: word_le_nat_alt)

lemma fast_even: "even (unat (n AND 0xFFFFFFFE :: 32 word))"
  by (simp add: even_and_iff unsigned_and_eq)

lemma less8: "(n::nat) < 8 \<Longrightarrow> n \<in> {0, 1, 2, 3, 4, 5, 6, 7}"
  by auto

lemma upt16: "[0..<16] = [0, 1, 2, 3, 4, 5, 6, 7, 8, 9, 10, 11, 12, 13, 14, 15 :: nat]"
  by (simp add: upt_rec)

lemma take_drop_nth:
  "p + n \<le> length xs \<Longrightarrow> take n (drop p xs) = map (\<lambda>k. xs ! (p + k)) [0..<n]"
  by (rule nth_equalityI) simp_all

lemma take16_drop:
  "p + 16 \<le> length xs \<Longrightarrow> take 16 (drop p xs) =
     [xs ! p, xs ! (p + 1), xs ! (p + 2), xs ! (p + 3), xs ! (p + 4), xs ! (p + 5),
      xs ! (p + 6), xs ! (p + 7), xs ! (p + 8), xs ! (p + 9), xs ! (p + 10), xs ! (p + 11),
      xs ! (p + 12), xs ! (p + 13), xs ! (p + 14), xs ! (p + 15)]"
  by (simp add: take_drop_nth upt16)

lemma and1_of_bool: "(x :: byte) AND 1 = of_bool (bit x 0)"
  by (simp add: and_one_eq mod_2_eq_odd bit_0)

lemma bit_or_chain:
  "n < 8 \<Longrightarrow>
   bit (push_bit 7 (of_bool c7) OR push_bit 6 (of_bool c6) OR push_bit 5 (of_bool c5) OR
        push_bit 4 (of_bool c4) OR push_bit 3 (of_bool c3) OR push_bit 2 (of_bool c2) OR
        push_bit 1 (of_bool c1) OR of_bool c0 :: byte) n
    = [c0, c1, c2, c3, c4, c5, c6, c7] ! n"
  by (drule less8, elim insertE emptyE) (simp_all add: bit_simps)

text \<open>
  The sixteen bits \<^verbatim>\<open>_mm_movemask_epi8\<close> collects, read through the two bytes the
  \<^verbatim>\<open>uint16_t\<close> store puts into memory.
\<close>

lemma bit_movemask_lo:
  "length cs = 16 \<Longrightarrow> n < 8 \<Longrightarrow>
   bit (ucast (ucast (horner_sum of_bool 2 cs :: 32 word) :: 16 word) :: byte) n = cs ! n"
  by (simp add: bit_simps)

lemma bit_movemask_hi:
  "length cs = 16 \<Longrightarrow> n < 8 \<Longrightarrow>
   bit (ucast (drop_bit 8 (ucast (horner_sum of_bool 2 cs :: 32 word) :: 16 word)) :: byte) n =
     cs ! (8 + n)"
  by (simp add: bit_simps)

section \<open>What pack\_byte and the generic packing loop compute\<close>

lemma pack_byte_eq:
  "pack_byte out_buf outputPtr in_buf inputPtr =
     (if outputPtr < length out_buf \<and> inputPtr + 7 < length in_buf
      then Some (out_buf[outputPtr := packed in_buf inputPtr]) else None)"
  by (simp add: pack_byte_def load_def store_def store_or_def packed_def or.assoc)

lemma bit_packed:
  assumes "j < 8"
  shows "bit (packed in_buf p) j = bit (in_buf ! (p + (7 - j))) 0"
proof -
  have "bit (packed in_buf p) j =
      [bit (in_buf ! (p + 7)) 0, bit (in_buf ! (p + 6)) 0, bit (in_buf ! (p + 5)) 0,
       bit (in_buf ! (p + 4)) 0, bit (in_buf ! (p + 3)) 0, bit (in_buf ! (p + 2)) 0,
       bit (in_buf ! (p + 1)) 0, bit (in_buf ! p) 0] ! j"
    unfolding packed_def by (simp only: and1_of_bool bit_or_chain [OF assms])
  also have "\<dots> = bit (in_buf ! (p + (7 - j))) 0"
    using less8 [OF assms] by (elim insertE emptyE) simp_all
  finally show ?thesis .
qed

lemma packed_bit_order:
  assumes "k \<le> 7"
  shows "drop_bit (7 - k) (packed in_buf p) AND 1 = in_buf ! (p + k) AND 1"
proof -
  have "7 - k < 8" by simp
  then have "bit (packed in_buf p) (7 - k) = bit (in_buf ! (p + (7 - (7 - k)))) 0"
    by (rule bit_packed)
  with assms have "bit (drop_bit (7 - k) (packed in_buf p)) 0 = bit (in_buf ! (p + k)) 0"
    by (simp add: bit_drop_bit_eq)
  then show ?thesis
    by (simp only: and1_of_bool)
qed

lemma packed_cong:
  assumes "take (p + 8) xs = take (p + 8) ys"
  shows "packed xs p = packed ys p"
proof -
  have "xs ! (p + j) = ys ! (p + j)" if "j < 8" for j
  proof -
    have "xs ! (p + j) = take (p + 8) xs ! (p + j)" using that by simp
    also have "\<dots> = ys ! (p + j)" using that by (simp add: assms)
    finally show ?thesis .
  qed
  from this [of 0] this [of 1] this [of 2] this [of 3] this [of 4] this [of 5] this [of 6]
    this [of 7]
  show ?thesis
    by (simp add: packed_def)
qed

text \<open>
  The scalar loop, entered with \<open>byte\<close> bytes done and both pointers where that many
  rounds leave them, fills the positions \<open>byte\<close> to \<open>num_bytes - 1\<close>.
\<close>

lemma pack8_loop_eq:
  "outputPtr = unat byte \<Longrightarrow> inputPtr = 8 * unat byte \<Longrightarrow> unat byte \<le> unat num_bytes \<Longrightarrow>
   unat num_bytes \<le> length out_buf \<Longrightarrow> 8 * unat num_bytes \<le> length in_buf \<Longrightarrow>
   pack8_loop num_bytes byte out_buf outputPtr in_buf inputPtr =
     Some (take (unat byte) out_buf @
           map (\<lambda>i. packed in_buf (8 * i)) [unat byte ..< unat num_bytes] @
           drop (unat num_bytes) out_buf)"
proof (induction num_bytes byte out_buf outputPtr in_buf inputPtr rule: pack8_loop.induct)
  case (1 num_bytes byte out_buf outputPtr in_buf inputPtr)
  show ?case
  proof (cases "byte < num_bytes")
    case False
    with "1.prems" have "unat byte = unat num_bytes"
      by (simp add: word_less_nat_alt)
    with False show ?thesis
      by (subst pack8_loop.simps) simp
  next
    case True
    then have lt: "unat byte < unat num_bytes" by (simp add: word_less_nat_alt)
    have suc: "unat (byte + 1) = Suc (unat byte)" using True by (rule unat_word_Suc)
    let ?m = "out_buf[outputPtr := packed in_buf inputPtr]"
    have pb: "pack_byte out_buf outputPtr in_buf inputPtr = Some ?m"
      using "1.prems" lt by (simp add: pack_byte_eq)
    have "pack8_loop num_bytes (byte + 1) ?m (outputPtr + 1) in_buf (inputPtr + 8) =
       Some (take (unat (byte + 1)) ?m @
             map (\<lambda>i. packed in_buf (8 * i)) [unat (byte + 1) ..< unat num_bytes] @
             drop (unat num_bytes) ?m)"
      using "1.prems" lt suc by (intro "1.IH" [OF True pb]) simp_all
    moreover have "take (unat (byte + 1)) ?m =
        take (unat byte) out_buf @ [packed in_buf (8 * unat byte)]"
      using "1.prems" lt suc by (simp add: take_Suc_conv_app_nth)
    moreover have "drop (unat num_bytes) ?m = drop (unat num_bytes) out_buf"
      using "1.prems" lt by simp
    moreover have "[unat byte ..< unat num_bytes] =
        unat byte # [unat (byte + 1) ..< unat num_bytes]"
      using lt suc by (simp add: upt_conv_Cons)
    ultimately show ?thesis
      using True pb by (subst pack8_loop.simps) simp
  qed
qed

lemma pack8_generic_eq:
  "unat num_bytes \<le> length out_buf \<Longrightarrow> 8 * unat num_bytes \<le> length in_buf \<Longrightarrow>
   volk_8u_pack8_8u_generic out_buf in_buf num_bytes =
     Some (map (\<lambda>i. packed in_buf (8 * i)) [0 ..< unat num_bytes] @
           drop (unat num_bytes) out_buf)"
  unfolding volk_8u_pack8_8u_generic_def
  by (subst pack8_loop_eq) simp_all

section \<open>The SSSE3 packing loop\<close>

text \<open>
  One round of the vector loop: the shuffle reverses each half of the sixteen loaded
  bytes, the comparison turns each lowest bit into a top bit, and the mask of the top bits,
  stored as two bytes, is the two packed bytes.
\<close>

lemma shuffle_pack:
  "mm_shuffle_epi8 [a0, a1, a2, a3, a4, a5, a6, a7, a8, a9, a10, a11, a12, a13, a14, a15] pack8_reverse_mask
    = [a7, a6, a5, a4, a3, a2, a1, a0, a15, a14, a13, a12, a11, a10, a9, a8]"
  by (simp add: mm_shuffle_epi8_def pack8_reverse_mask_def mm_set_epi8_def)

lemma lsb_FF: "bit (if (x :: byte) AND 1 = 1 then 0xFF else 0 :: byte) 7 \<longleftrightarrow> bit x 0"
  by (simp add: and_one_eq mod_2_eq_odd bit_0)

lemma and_cmp_pack:
  "map (\<lambda>x. bit x 7) (mm_cmpeq_epi8 (mm_and_si128 [a0, a1, a2, a3, a4, a5, a6, a7, a8, a9, a10, a11, a12, a13, a14, a15] pack8_bit_mask) pack8_bit_mask)
   = map (\<lambda>x. bit x 0) [a0, a1, a2, a3, a4, a5, a6, a7, a8, a9, a10, a11, a12, a13, a14, a15]"
  using lsb_FF
  by (simp add: mm_cmpeq_epi8_def mm_and_si128_def pack8_bit_mask_def mm_set1_epi8_def eval_nat_numeral)

lemma pack16_lo:
  "ucast (ucast (mm_movemask_epi8 (mm_cmpeq_epi8 (mm_and_si128
      (mm_shuffle_epi8 [a0, a1, a2, a3, a4, a5, a6, a7, a8, a9, a10, a11, a12, a13, a14, a15]
         pack8_reverse_mask) pack8_bit_mask) pack8_bit_mask)) :: 16 word) =
   (push_bit 7 (a0 AND 1) OR push_bit 6 (a1 AND 1) OR push_bit 5 (a2 AND 1) OR
    push_bit 4 (a3 AND 1) OR push_bit 3 (a4 AND 1) OR push_bit 2 (a5 AND 1) OR
    push_bit 1 (a6 AND 1) OR (a7 AND 1) :: byte)"
proof -
  define cs where "cs = map (\<lambda>x. bit x 0)
    [a7, a6, a5, a4, a3, a2, a1, a0, a15, a14, a13, a12, a11, a10, a9, a8]"
  have mm: "mm_movemask_epi8 (mm_cmpeq_epi8 (mm_and_si128
      (mm_shuffle_epi8 [a0, a1, a2, a3, a4, a5, a6, a7, a8, a9, a10, a11, a12, a13, a14, a15]
         pack8_reverse_mask) pack8_bit_mask) pack8_bit_mask) = horner_sum of_bool 2 cs"
    unfolding mm_movemask_epi8_def cs_def by (simp only: shuffle_pack and_cmp_pack)
  have len: "length cs = 16" by (simp add: cs_def)
  show ?thesis
    unfolding mm
  proof (rule bit_eqI)
    fix n assume "possible_bit TYPE(byte) n"
    then have n: "n < 8" by (simp add: possible_bit_word)
    have "bit (ucast (ucast (horner_sum of_bool 2 cs :: 32 word) :: 16 word) :: byte) n = cs ! n"
      using len n by (rule bit_movemask_lo)
    also have "cs ! n = [bit a7 0, bit a6 0, bit a5 0, bit a4 0, bit a3 0, bit a2 0, bit a1 0, bit a0 0] ! n"
      using less8 [OF n] unfolding cs_def by (elim insertE emptyE) simp_all
    also have "\<dots> = bit (push_bit 7 (a0 AND 1) OR push_bit 6 (a1 AND 1) OR push_bit 5 (a2 AND 1) OR
        push_bit 4 (a3 AND 1) OR push_bit 3 (a4 AND 1) OR push_bit 2 (a5 AND 1) OR
        push_bit 1 (a6 AND 1) OR (a7 AND 1) :: byte) n"
      by (simp only: and1_of_bool bit_or_chain [OF n])
    finally show "bit (ucast (ucast (horner_sum of_bool 2 cs :: 32 word) :: 16 word) :: byte) n =
       bit (push_bit 7 (a0 AND 1) OR push_bit 6 (a1 AND 1) OR push_bit 5 (a2 AND 1) OR
        push_bit 4 (a3 AND 1) OR push_bit 3 (a4 AND 1) OR push_bit 2 (a5 AND 1) OR
        push_bit 1 (a6 AND 1) OR (a7 AND 1) :: byte) n" .
  qed
qed

lemma pack16_hi:
  "ucast (drop_bit 8 (ucast (mm_movemask_epi8 (mm_cmpeq_epi8 (mm_and_si128
      (mm_shuffle_epi8 [a0, a1, a2, a3, a4, a5, a6, a7, a8, a9, a10, a11, a12, a13, a14, a15]
         pack8_reverse_mask) pack8_bit_mask) pack8_bit_mask)) :: 16 word)) =
   (push_bit 7 (a8 AND 1) OR push_bit 6 (a9 AND 1) OR push_bit 5 (a10 AND 1) OR
    push_bit 4 (a11 AND 1) OR push_bit 3 (a12 AND 1) OR push_bit 2 (a13 AND 1) OR
    push_bit 1 (a14 AND 1) OR (a15 AND 1) :: byte)"
proof -
  define cs where "cs = map (\<lambda>x. bit x 0)
    [a7, a6, a5, a4, a3, a2, a1, a0, a15, a14, a13, a12, a11, a10, a9, a8]"
  have mm: "mm_movemask_epi8 (mm_cmpeq_epi8 (mm_and_si128
      (mm_shuffle_epi8 [a0, a1, a2, a3, a4, a5, a6, a7, a8, a9, a10, a11, a12, a13, a14, a15]
         pack8_reverse_mask) pack8_bit_mask) pack8_bit_mask) = horner_sum of_bool 2 cs"
    unfolding mm_movemask_epi8_def cs_def by (simp only: shuffle_pack and_cmp_pack)
  have len: "length cs = 16" by (simp add: cs_def)
  show ?thesis
    unfolding mm
  proof (rule bit_eqI)
    fix n assume "possible_bit TYPE(byte) n"
    then have n: "n < 8" by (simp add: possible_bit_word)
    have "bit (ucast (drop_bit 8 (ucast (horner_sum of_bool 2 cs :: 32 word) :: 16 word)) :: byte) n
        = cs ! (8 + n)"
      using len n by (rule bit_movemask_hi)
    also have "cs ! (8 + n) = [bit a15 0, bit a14 0, bit a13 0, bit a12 0, bit a11 0, bit a10 0, bit a9 0, bit a8 0] ! n"
      using less8 [OF n] unfolding cs_def by (elim insertE emptyE) simp_all
    also have "\<dots> = bit (push_bit 7 (a8 AND 1) OR push_bit 6 (a9 AND 1) OR push_bit 5 (a10 AND 1) OR
        push_bit 4 (a11 AND 1) OR push_bit 3 (a12 AND 1) OR push_bit 2 (a13 AND 1) OR
        push_bit 1 (a14 AND 1) OR (a15 AND 1) :: byte) n"
      by (simp only: and1_of_bool bit_or_chain [OF n])
    finally show "bit (ucast (drop_bit 8 (ucast (horner_sum of_bool 2 cs :: 32 word) :: 16 word)) :: byte) n =
       bit (push_bit 7 (a8 AND 1) OR push_bit 6 (a9 AND 1) OR push_bit 5 (a10 AND 1) OR
        push_bit 4 (a11 AND 1) OR push_bit 3 (a12 AND 1) OR push_bit 2 (a13 AND 1) OR
        push_bit 1 (a14 AND 1) OR (a15 AND 1) :: byte) n" .
  qed
qed

lemma pack16_step:
  assumes "inputPtr + 16 \<le> length in_buf" and "outputPtr + 2 \<le> length out_buf"
  shows "(do {
        loaded \<leftarrow> mm_loadu_si128 in_buf inputPtr;
        let loaded = mm_shuffle_epi8 loaded pack8_reverse_mask;
        let loaded = mm_and_si128 loaded pack8_bit_mask;
        let compared = mm_cmpeq_epi8 loaded pack8_bit_mask;
        m \<leftarrow> store_uint16 out_buf outputPtr (ucast (mm_movemask_epi8 compared));
        f m }) = f (out_buf[outputPtr := packed in_buf inputPtr,
                          outputPtr + 1 := packed in_buf (inputPtr + 8)])"
proof -
  have p8: "packed in_buf (inputPtr + 8) =
     push_bit 7 (in_buf ! (inputPtr + 8) AND 1) OR push_bit 6 (in_buf ! (inputPtr + 9) AND 1) OR
     push_bit 5 (in_buf ! (inputPtr + 10) AND 1) OR push_bit 4 (in_buf ! (inputPtr + 11) AND 1) OR
     push_bit 3 (in_buf ! (inputPtr + 12) AND 1) OR push_bit 2 (in_buf ! (inputPtr + 13) AND 1) OR
     push_bit 1 (in_buf ! (inputPtr + 14) AND 1) OR (in_buf ! (inputPtr + 15) AND 1)"
    unfolding packed_def by (simp only: add.assoc) simp
  have p0: "packed in_buf inputPtr =
     push_bit 7 (in_buf ! inputPtr AND 1) OR push_bit 6 (in_buf ! (inputPtr + 1) AND 1) OR
     push_bit 5 (in_buf ! (inputPtr + 2) AND 1) OR push_bit 4 (in_buf ! (inputPtr + 3) AND 1) OR
     push_bit 3 (in_buf ! (inputPtr + 4) AND 1) OR push_bit 2 (in_buf ! (inputPtr + 5) AND 1) OR
     push_bit 1 (in_buf ! (inputPtr + 6) AND 1) OR (in_buf ! (inputPtr + 7) AND 1)"
    by (simp only: packed_def)
  show ?thesis
    using assms
    by (simp only: p0 p8 mm_loadu_si128_def store_uint16_def Let_def take16_drop pack16_lo
        pack16_hi if_True bind.bind_lunit)
qed

lemma pack8_ssse3_loop_eq:
  assumes "unat num_bytes \<le> length out_buf" and "8 * unat num_bytes \<le> length in_buf"
    and "outputPtr = unat byte" and "inputPtr = 8 * unat byte" and "even (unat byte)"
    and "unat byte \<le> unat (num_bytes AND 0xFFFFFFFE)"
  shows "pack8_ssse3_loop num_bytes byte out_buf outputPtr in_buf inputPtr =
     Some (num_bytes AND 0xFFFFFFFE,
           take (unat byte) out_buf @
           map (\<lambda>i. packed in_buf (8 * i)) [unat byte ..< unat (num_bytes AND 0xFFFFFFFE)] @
           drop (unat (num_bytes AND 0xFFFFFFFE)) out_buf,
           unat (num_bytes AND 0xFFFFFFFE), 8 * unat (num_bytes AND 0xFFFFFFFE))"
  using assms
proof (induction "unat (num_bytes AND 0xFFFFFFFE) - unat byte"
    arbitrary: byte out_buf outputPtr inputPtr rule: less_induct)
  case less
  let ?fast = "num_bytes AND 0xFFFFFFFE"
  show ?case
  proof (cases "byte < ?fast")
    case False
    with less.prems have "unat byte = unat ?fast"
      by (simp add: word_less_nat_alt)
    then have "byte = ?fast" by (simp only: word_unat_eq_iff)
    then show ?thesis
      using less.prems by (subst pack8_ssse3_loop.simps) simp
  next
    case True
    then have lt: "unat byte < unat ?fast" by (simp add: word_less_nat_alt)
    have "unat byte + 2 \<le> unat ?fast"
      using lt fast_even [of num_bytes] \<open>even (unat byte)\<close> by presburger
    then have le2: "unat byte + 2 \<le> unat num_bytes" and lef: "unat byte + 2 \<le> unat ?fast"
      using fast_le [of num_bytes] by simp_all
    have "unat num_bytes < 2 ^ 32" using unsigned_less [of num_bytes] by simp
    with le2 have suc: "unat (byte + 2) = unat byte + 2"
      using unat_add_lem [of byte 2] by simp
    let ?m = "out_buf[outputPtr := packed in_buf inputPtr,
                      outputPtr + 1 := packed in_buf (inputPtr + 8)]"
    have a: "inputPtr + 16 \<le> length in_buf" and b: "outputPtr + 2 \<le> length out_buf"
      using less.prems le2 by simp_all
    have step: "pack8_ssse3_loop num_bytes byte out_buf outputPtr in_buf inputPtr =
       pack8_ssse3_loop num_bytes (byte + 2) ?m (outputPtr + 2) in_buf (inputPtr + 16)"
      by (subst pack8_ssse3_loop.simps) (simp only: True if_True pack16_step [OF a b])
    have "pack8_ssse3_loop num_bytes (byte + 2) ?m (outputPtr + 2) in_buf (inputPtr + 16) =
       Some (?fast,
           take (unat (byte + 2)) ?m @
           map (\<lambda>i. packed in_buf (8 * i)) [unat (byte + 2) ..< unat ?fast] @
           drop (unat ?fast) ?m,
           unat ?fast, 8 * unat ?fast)"
      using less.prems lt suc lef by (intro less.hyps) simp_all
    moreover have "take (unat (byte + 2)) ?m =
        take (unat byte) out_buf @ [packed in_buf (8 * unat byte), packed in_buf (8 * (unat byte + 1))]"
      using less.prems le2 suc
      by (simp add: take_Suc_conv_app_nth numeral_2_eq_2 nth_list_update add.commute)
    moreover have "drop (unat ?fast) ?m = drop (unat ?fast) out_buf"
      using less.prems lef by simp
    moreover have "[unat byte ..< unat ?fast] =
        unat byte # (unat byte + 1) # [unat (byte + 2) ..< unat ?fast]"
      using lef suc by (simp add: upt_conv_Cons)
    ultimately show ?thesis
      by (simp add: step)
  qed
qed

lemma pack8_ssse3_eq:
  assumes "unat num_bytes \<le> length out_buf" and "8 * unat num_bytes \<le> length in_buf"
  shows "volk_8u_pack8_8u_u_ssse3 out_buf in_buf num_bytes =
     Some (map (\<lambda>i. packed in_buf (8 * i)) [0 ..< unat num_bytes] @ drop (unat num_bytes) out_buf)"
proof -
  let ?fast = "num_bytes AND 0xFFFFFFFE"
  let ?f = "\<lambda>i. packed in_buf (8 * i)"
  let ?m = "map ?f [0 ..< unat ?fast] @ drop (unat ?fast) out_buf"
  have le: "unat ?fast \<le> unat num_bytes" by (rule fast_le)
  have vec: "pack8_ssse3_loop num_bytes 0 out_buf 0 in_buf 0 =
      Some (?fast, ?m, unat ?fast, 8 * unat ?fast)"
    using assms by (subst pack8_ssse3_loop_eq) simp_all
  have len: "length ?m = length out_buf"
    using assms le by simp
  have tail: "pack8_loop num_bytes ?fast ?m (unat ?fast) in_buf (8 * unat ?fast) =
      Some (take (unat ?fast) ?m @ map ?f [unat ?fast ..< unat num_bytes] @ drop (unat num_bytes) ?m)"
    using assms le len by (intro pack8_loop_eq) simp_all
  have "take (unat ?fast) ?m = map ?f [0 ..< unat ?fast]" by simp
  moreover have "drop (unat num_bytes) ?m = drop (unat num_bytes) out_buf"
    using le by simp
  moreover have "map ?f [0 ..< unat ?fast] @ map ?f [unat ?fast ..< unat num_bytes] =
      map ?f [0 ..< unat num_bytes]"
  proof -
    from le obtain k where k: "unat num_bytes = unat ?fast + k"
      using le_Suc_ex by blast
    show ?thesis
      unfolding k by (simp only: upt_add_eq_append [OF le0] map_append)
  qed
  ultimately show ?thesis
    unfolding volk_8u_pack8_8u_u_ssse3_def by (simp add: vec tail)
qed

section \<open>Claims about the packing kernel\<close>

text \<open>
  Claim C2. For every length \<open>num_bytes\<close> and every input buffer, the puppet
  \<^verbatim>\<open>volk_8u_pack8puppet_8u_generic(out, in, num_bytes)\<close> is the call
  \<^verbatim>\<open>volk_8u_pack8_8u_generic(out, in, num_bytes / 8)\<close>. On buffers that are large
  enough it writes exactly the first \<open>num_bytes div 8\<close> output bytes, leaving the rest of
  the output buffer as it was, and its result depends on the first
  \<open>8 * (num_bytes div 8)\<close> input bytes only. The witness is the length 64 of the test
  harness: eight bytes are written.
\<close>

theorem pack8puppet_generic:
  assumes "unat num_bytes div 8 \<le> length out_buf"
    and "8 * (unat num_bytes div 8) \<le> length in_buf"
  shows "volk_8u_pack8puppet_8u_generic out_buf in_buf num_bytes =
           volk_8u_pack8_8u_generic out_buf in_buf (num_bytes div 8) \<and>
         volk_8u_pack8puppet_8u_generic out_buf in_buf num_bytes =
           Some (map (\<lambda>i. packed in_buf (8 * i)) [0 ..< unat num_bytes div 8] @
                 drop (unat num_bytes div 8) out_buf) \<and>
         (\<forall>in_buf'. take (8 * (unat num_bytes div 8)) in_buf' = take (8 * (unat num_bytes div 8)) in_buf \<longrightarrow>
            volk_8u_pack8puppet_8u_generic out_buf in_buf' num_bytes =
            volk_8u_pack8puppet_8u_generic out_buf in_buf num_bytes)"
proof -
  let ?k = "unat num_bytes div 8"
  have k: "unat (num_bytes div 8) = ?k" by (simp add: unat_div)
  have res: "volk_8u_pack8puppet_8u_generic out_buf xs num_bytes =
           Some (map (\<lambda>i. packed xs (8 * i)) [0 ..< ?k] @ drop ?k out_buf)"
    if "8 * ?k \<le> length xs" for xs
    unfolding volk_8u_pack8puppet_8u_generic_def
    using assms(1) that by (subst pack8_generic_eq) (simp_all add: k)
  have "volk_8u_pack8puppet_8u_generic out_buf in_buf' num_bytes =
            volk_8u_pack8puppet_8u_generic out_buf in_buf num_bytes"
    if eq: "take (8 * ?k) in_buf' = take (8 * ?k) in_buf" for in_buf'
  proof -
    have "length (take (8 * ?k) in_buf') = 8 * ?k"
      using assms(2) by (simp add: eq)
    then have len: "8 * ?k \<le> length in_buf'" by simp
    have "packed in_buf' (8 * i) = packed in_buf (8 * i)" if "i < ?k" for i
    proof (rule packed_cong)
      have "take (8 * i + 8) in_buf' = take (8 * i + 8) (take (8 * ?k) in_buf')"
        using that by (simp add: min_def)
      also have "\<dots> = take (8 * i + 8) in_buf"
        using that by (simp add: eq min_def)
      finally show "take (8 * i + 8) in_buf' = take (8 * i + 8) in_buf" .
    qed
    then have m: "map (\<lambda>i. packed in_buf' (8 * i)) [0 ..< ?k] =
        map (\<lambda>i. packed in_buf (8 * i)) [0 ..< ?k]"
      by simp
    show ?thesis
      by (simp only: res [OF len] res [OF assms(2)] m)
  qed
  then have reads: "\<forall>in_buf'.
      take (8 * ?k) in_buf' = take (8 * ?k) in_buf \<longrightarrow>
      volk_8u_pack8puppet_8u_generic out_buf in_buf' num_bytes =
      volk_8u_pack8puppet_8u_generic out_buf in_buf num_bytes"
    by blast
  have calls: "volk_8u_pack8puppet_8u_generic out_buf in_buf num_bytes =
      volk_8u_pack8_8u_generic out_buf in_buf (num_bytes div 8)"
    by (simp only: volk_8u_pack8puppet_8u_generic_def)
  from calls res [OF assms(2)] reads show ?thesis
    by (intro conjI)
qed

theorem pack8puppet_generic_witness:
  "volk_8u_pack8puppet_8u_generic [0x55, 0x55, 0x55, 0x55, 0x55, 0x55, 0x55, 0x55, 0x55, 0x55] (replicate 64 1) 64 =
     Some [255, 255, 255, 255, 255, 255, 255, 255, 0x55, 0x55]"
proof -
  have a: "unat (64 :: 32 word) div 8 \<le> length ([0x55, 0x55, 0x55, 0x55, 0x55, 0x55, 0x55, 0x55, 0x55, 0x55 :: byte])" by simp
  have b: "8 * (unat (64 :: 32 word) div 8) \<le> length (replicate 64 (1 :: byte))" by simp
  have "volk_8u_pack8puppet_8u_generic [0x55, 0x55, 0x55, 0x55, 0x55, 0x55, 0x55, 0x55, 0x55, 0x55] (replicate 64 1) 64 =
      Some (map (\<lambda>i. packed (replicate 64 1) (8 * i)) [0 ..< unat (64 :: 32 word) div 8] @
            drop (unat (64 :: 32 word) div 8) [0x55, 0x55, 0x55, 0x55, 0x55, 0x55, 0x55, 0x55, 0x55, 0x55])"
    using pack8puppet_generic [OF a b] by (elim conjE)
  also have "[0 ..< unat (64 :: 32 word) div 8] = [0, 1, 2, 3, 4, 5, 6, 7]"
    by (simp add: upt_rec)
  also have "drop (unat (64 :: 32 word) div 8) ([0x55, 0x55, 0x55, 0x55, 0x55, 0x55, 0x55, 0x55, 0x55, 0x55 :: byte]) = [0x55, 0x55]"
    by simp
  finally show ?thesis
    by (simp add: packed_def)
qed

text \<open>
  Claim C3. For every \<open>num_bytes\<close>, every input buffer of at least \<open>8 * num_bytes\<close>
  bytes and every output buffer of at least \<open>num_bytes\<close> bytes,
  \<^verbatim>\<open>volk_8u_pack8_8u_u_ssse3\<close> returns, and leaves the output buffer exactly as
  \<^verbatim>\<open>volk_8u_pack8_8u_generic\<close> leaves it.
\<close>

theorem pack8_u_ssse3_generic:
  assumes "unat num_bytes \<le> length out_buf" and "8 * unat num_bytes \<le> length in_buf"
  shows "\<exists>r. volk_8u_pack8_8u_generic out_buf in_buf num_bytes = Some r \<and>
             volk_8u_pack8_8u_u_ssse3 out_buf in_buf num_bytes = Some r"
  using assms by (simp add: pack8_generic_eq pack8_ssse3_eq)

theorem pack8_u_ssse3_generic_witness:
  "\<exists>r. volk_8u_pack8_8u_generic [0, 0, 0] (replicate 24 1) 3 = Some r \<and>
       volk_8u_pack8_8u_u_ssse3 [0, 0, 0] (replicate 24 1) 3 = Some r"
proof -
  have a: "unat (3 :: 32 word) \<le> length [0, 0, 0 :: byte]" by simp
  have b: "8 * unat (3 :: 32 word) \<le> length (replicate 24 (1 :: byte))" by simp
  show ?thesis by (rule pack8_u_ssse3_generic [OF a b])
qed

text \<open>
  Claim C10. Bit order of packing: for every \<open>num_bytes\<close>, every output index
  \<open>i < num_bytes\<close> and every \<open>k\<close> from 0 to 7, bit \<open>7 - k\<close> of the byte
  \<^verbatim>\<open>volk_8u_pack8_8u_generic\<close> writes at \<open>i\<close> is \<^verbatim>\<open>in_buf[8*i + k] & 1\<close>: the first
  input byte of a group of eight lands in the most significant bit, and only the lowest bit
  of an input byte counts.
\<close>

theorem pack8_bit_order:
  assumes "unat num_bytes \<le> length out_buf" and "8 * unat num_bytes \<le> length in_buf"
    and "i < unat num_bytes" and "k \<le> 7"
  shows "\<exists>r. volk_8u_pack8_8u_generic out_buf in_buf num_bytes = Some r \<and>
             drop_bit (7 - k) (r ! i) AND 1 = in_buf ! (8 * i + k) AND 1"
proof -
  have "(map (\<lambda>i. packed in_buf (8 * i)) [0 ..< unat num_bytes] @ drop (unat num_bytes) out_buf) ! i
      = packed in_buf (8 * i)"
    using assms(3) by (simp add: nth_append)
  then show ?thesis
    using assms by (simp add: pack8_generic_eq packed_bit_order)
qed

theorem pack8_bit_order_witness:
  "\<exists>r. volk_8u_pack8_8u_generic [0] [1, 0, 0, 0, 0, 0, 0, 0] 1 = Some r \<and>
       drop_bit (7 - 0) (r ! 0) AND 1 = [1, 0, 0, 0, 0, 0, 0, 0 :: byte] ! (8 * 0 + 0) AND 1"
proof -
  have a: "unat (1 :: 32 word) \<le> length [0 :: byte]" by simp
  have b: "8 * unat (1 :: 32 word) \<le> length [1, 0, 0, 0, 0, 0, 0, 0 :: byte]" by simp
  have c: "0 < unat (1 :: 32 word)" by simp
  have d: "(0 :: nat) \<le> 7" by simp
  show ?thesis by (rule pack8_bit_order [OF a b c d])
qed

section \<open>What unpack\_byte and the generic unpacking loop compute\<close>

lemma length_unpacked: "length (unpacked b) = 8"
  by (simp add: unpacked_def)

lemma list_update8:
  assumes "p + 8 \<le> length xs"
  shows "xs[p := a0, p + 1 := a1, p + 2 := a2, p + 3 := a3, p + 4 := a4, p + 5 := a5,
            p + 6 := a6, p + 7 := a7] =
         take p xs @ [a0, a1, a2, a3, a4, a5, a6, a7] @ drop (p + 8) xs"
proof (rule nth_equalityI)
  show "length (xs[p := a0, p + 1 := a1, p + 2 := a2, p + 3 := a3, p + 4 := a4, p + 5 := a5,
            p + 6 := a6, p + 7 := a7]) =
      length (take p xs @ [a0, a1, a2, a3, a4, a5, a6, a7] @ drop (p + 8) xs)"
    using assms by simp
next
  fix i
  assume "i < length (xs[p := a0, p + 1 := a1, p + 2 := a2, p + 3 := a3, p + 4 := a4,
            p + 5 := a5, p + 6 := a6, p + 7 := a7])"
  then have i: "i < length xs" by simp
  consider "i < p" | k where "i = p + k" "k < 8" | "p + 8 \<le> i"
    by (metis le_add_diff_inverse not_less nat_add_left_cancel_less)
  then show "xs[p := a0, p + 1 := a1, p + 2 := a2, p + 3 := a3, p + 4 := a4, p + 5 := a5,
            p + 6 := a6, p + 7 := a7] ! i =
      (take p xs @ [a0, a1, a2, a3, a4, a5, a6, a7] @ drop (p + 8) xs) ! i"
  proof cases
    case 1
    with assms show ?thesis by (simp add: nth_append)
  next
    case 2
    from less8 [OF \<open>k < 8\<close>] show ?thesis
      using assms unfolding \<open>i = p + k\<close> by (elim insertE emptyE) (simp_all add: nth_append)
  next
    case 3
    then obtain j where j: "i = p + 8 + j" using le_Suc_ex by blast
    with assms i show ?thesis by (simp add: nth_append)
  qed
qed

lemma unpack_byte_eq:
  "unpack_byte out_buf outputPtr in_buf inputPtr =
     (if inputPtr < length in_buf \<and> outputPtr + 7 < length out_buf
      then Some (take outputPtr out_buf @ unpacked (in_buf ! inputPtr) @
                 drop (outputPtr + 8) out_buf)
      else None)"
proof (cases "inputPtr < length in_buf \<and> outputPtr + 7 < length out_buf")
  case True
  then have "outputPtr + 8 \<le> length out_buf" by simp
  from list_update8 [OF this] True show ?thesis
    by (simp add: unpack_byte_def load_def store_def unpacked_def)
next
  case False
  then show ?thesis
    by (auto simp add: unpack_byte_def load_def store_def)
qed

lemma length_concat_unpacked:
  "length (concat (map (\<lambda>i. unpacked (f i)) [a ..< b])) = 8 * (b - a)"
  by (induction b) (simp_all add: length_unpacked Suc_diff_le)

lemma unpack8_loop_eq:
  "outputPtr = 8 * unat byte \<Longrightarrow> inputPtr = unat byte \<Longrightarrow> unat byte \<le> unat num_bytes \<Longrightarrow>
   8 * unat num_bytes \<le> length out_buf \<Longrightarrow> unat num_bytes \<le> length in_buf \<Longrightarrow>
   unpack8_loop num_bytes byte out_buf outputPtr in_buf inputPtr =
     Some (take (8 * unat byte) out_buf @
           concat (map (\<lambda>i. unpacked (in_buf ! i)) [unat byte ..< unat num_bytes]) @
           drop (8 * unat num_bytes) out_buf)"
proof (induction num_bytes byte out_buf outputPtr in_buf inputPtr rule: unpack8_loop.induct)
  case (1 num_bytes byte out_buf outputPtr in_buf inputPtr)
  show ?case
  proof (cases "byte < num_bytes")
    case False
    with "1.prems" have "unat byte = unat num_bytes"
      by (simp add: word_less_nat_alt)
    with False show ?thesis
      by (subst unpack8_loop.simps) simp
  next
    case True
    then have lt: "unat byte < unat num_bytes" by (simp add: word_less_nat_alt)
    have suc: "unat (byte + 1) = Suc (unat byte)" using True by (rule unat_word_Suc)
    let ?m = "take outputPtr out_buf @ unpacked (in_buf ! inputPtr) @
                 drop (outputPtr + 8) out_buf"
    have ub: "unpack_byte out_buf outputPtr in_buf inputPtr = Some ?m"
      using "1.prems" lt by (simp add: unpack_byte_eq)
    have len: "length ?m = length out_buf"
      using "1.prems" lt by (simp add: length_unpacked)
    have "unpack8_loop num_bytes (byte + 1) ?m (outputPtr + 8) in_buf (inputPtr + 1) =
       Some (take (8 * unat (byte + 1)) ?m @
             concat (map (\<lambda>i. unpacked (in_buf ! i)) [unat (byte + 1) ..< unat num_bytes]) @
             drop (8 * unat num_bytes) ?m)"
      using "1.prems" lt suc len by (intro "1.IH" [OF True ub]) simp_all
    moreover have "take (8 * unat (byte + 1)) ?m =
        take (8 * unat byte) out_buf @ unpacked (in_buf ! unat byte)"
      using "1.prems" lt suc by (simp add: length_unpacked)
    moreover have "drop (8 * unat num_bytes) ?m = drop (8 * unat num_bytes) out_buf"
    proof -
      from lt obtain d where d: "8 * unat num_bytes = 8 * unat byte + 8 + d"
        using le_Suc_ex [of "8 * unat byte + 8" "8 * unat num_bytes"] by auto
      show ?thesis
        using "1.prems" lt unfolding d by (simp add: length_unpacked add.commute)
    qed
    moreover have "[unat byte ..< unat num_bytes] =
        unat byte # [unat (byte + 1) ..< unat num_bytes]"
      using lt suc by (simp add: upt_conv_Cons)
    ultimately show ?thesis
      using True ub by (subst unpack8_loop.simps) simp
  qed
qed

lemma unpack8_generic_eq:
  "8 * unat num_bytes \<le> length out_buf \<Longrightarrow> unat num_bytes \<le> length in_buf \<Longrightarrow>
   volk_8u_unpack8_8u_generic out_buf in_buf num_bytes =
     Some (concat (map (\<lambda>i. unpacked (in_buf ! i)) [0 ..< unat num_bytes]) @
           drop (8 * unat num_bytes) out_buf)"
  unfolding volk_8u_unpack8_8u_generic_def
  by (subst unpack8_loop_eq) simp_all

section \<open>The SSSE3 unpacking loop\<close>

text \<open>
  One round of the vector loop: the two input bytes are broadcast, the shuffle puts the
  first into the low half and the second into the high half, and the mask, the comparison
  and the final \<open>AND\<close> with ones leave one bit of them in each byte.
\<close>

lemma short_lo: "ucast (ucast a OR push_bit 8 (ucast b) :: 16 word) = (a :: byte)"
  by (rule bit_eqI) (auto simp add: bit_simps)

lemma short_hi:
  "ucast (drop_bit 8 (ucast (a :: byte) OR push_bit 8 (ucast b) :: 16 word)) = (b :: byte)"
proof (rule bit_eqI)
  fix n
  assume "possible_bit TYPE(byte) n"
  then have n: "n < 8" by (simp add: possible_bit_word)
  have "\<not> bit a (8 + n)"
    using bit_imp_le_length [of a "8 + n"] by auto
  then show "bit (ucast (drop_bit 8 (ucast a OR push_bit 8 (ucast b) :: 16 word)) :: byte) n =
      bit b n"
    using n by (simp add: bit_simps)
qed

lemma concat_replicate8:
  "concat (replicate 8 [x, y]) = [x, y, x, y, x, y, x, y, x, y, x, y, x, y, x, y]"
  by (simp add: eval_nat_numeral)

lemma set1_short:
  "mm_set1_epi16 (ucast (a :: byte) OR push_bit 8 (ucast (b :: byte))) =
     [a, b, a, b, a, b, a, b, a, b, a, b, a, b, a, b]"
  by (simp only: mm_set1_epi16_def short_lo short_hi concat_replicate8)

lemma shuffle_unpack:
  "mm_shuffle_epi8 [a0, a1, a2, a3, a4, a5, a6, a7, a8, a9, a10, a11, a12, a13, a14, a15]
     unpack8_reverse_mask =
   [a14, a12, a10, a8, a6, a4, a2, a0, a15, a13, a11, a9, a7, a5, a3, a1]"
  by (simp add: mm_shuffle_epi8_def unpack8_reverse_mask_def mm_set_epi8_def)

lemma drop_bit_and_pow:
  assumes "k < 8"
  shows "drop_bit k ((a :: byte) AND push_bit k 1) = of_bool (bit a k)"
proof -
  have eq: "a AND push_bit k 1 = push_bit k (of_bool (bit a k))"
    by (rule bit_eqI) (auto simp add: bit_simps)
  show ?thesis
    unfolding eq
  proof (rule bit_eqI)
    fix n
    assume "possible_bit TYPE(byte) n"
    with assms
    show "bit (drop_bit k (push_bit k (of_bool (bit a k)) :: byte)) n =
        bit (of_bool (bit a k) :: byte) n"
      by (auto simp add: bit_simps)
  qed
qed

lemma mask_bit:
  assumes "k < 8"
  shows "(if (a :: byte) AND push_bit k 1 = push_bit k 1 then 0xFF else 0) AND 1 =
         drop_bit k (a AND push_bit k 1)"
proof -
  have eq: "a AND push_bit k 1 = push_bit k (of_bool (bit a k))"
    by (rule bit_eqI) (auto simp add: bit_simps)
  have "drop_bit k (a AND push_bit k 1) = (of_bool (bit a k) :: byte)"
    using assms by (rule drop_bit_and_pow)
  moreover have "(a AND push_bit k 1 = push_bit k 1) = bit a k"
    unfolding eq using assms by (cases "bit a k") (simp_all add: push_bit_eq_mult)
  ultimately show ?thesis by simp
qed

lemma unpack16:
  "mm_and_si128 (mm_cmpeq_epi8 (mm_and_si128 [a, a, a, a, a, a, a, a, b, b, b, b, b, b, b, b]
       unpack8_bit_mask) unpack8_bit_mask) unpack8_ones =
   unpacked a @ unpacked b"
  using mask_bit [of 7 a] mask_bit [of 6 a] mask_bit [of 5 a] mask_bit [of 4 a]
    mask_bit [of 3 a] mask_bit [of 2 a] mask_bit [of 1 a] mask_bit [of 0 a]
    mask_bit [of 7 b] mask_bit [of 6 b] mask_bit [of 5 b] mask_bit [of 4 b]
    mask_bit [of 3 b] mask_bit [of 2 b] mask_bit [of 1 b] mask_bit [of 0 b]
  by (simp add: mm_and_si128_def mm_cmpeq_epi8_def unpack8_bit_mask_def unpack8_ones_def
      mm_set_epi8_def mm_set1_epi8_def unpacked_def eval_nat_numeral)

lemma unpack16_step:
  assumes "inputPtr + 2 \<le> length in_buf" and "outputPtr + 16 \<le> length out_buf"
  shows "(do {
        s \<leftarrow> load_short in_buf inputPtr;
        let loaded = mm_set1_epi16 s;
        let loaded = mm_shuffle_epi8 loaded unpack8_reverse_mask;
        let loaded = mm_and_si128 loaded unpack8_bit_mask;
        let loaded = mm_cmpeq_epi8 loaded unpack8_bit_mask;
        let loaded = mm_and_si128 loaded unpack8_ones;
        m \<leftarrow> mm_storeu_si128 out_buf outputPtr loaded;
        f m }) =
     f (take outputPtr out_buf @
        (unpacked (in_buf ! inputPtr) @ unpacked (in_buf ! (inputPtr + 1))) @
        drop (outputPtr + 16) out_buf)"
proof -
  have len: "length (unpacked (in_buf ! inputPtr) @ unpacked (in_buf ! (inputPtr + 1))) = 16"
    by (simp add: length_unpacked)
  show ?thesis
    using assms
    by (simp only: load_short_def mm_storeu_si128_def Let_def if_True bind.bind_lunit
        set1_short shuffle_unpack unpack16 take_all [OF eq_imp_le [OF len]])
qed

lemma unpack8_ssse3_loop_eq:
  assumes "8 * unat num_bytes \<le> length out_buf" and "unat num_bytes \<le> length in_buf"
    and "outputPtr = 8 * unat byte" and "inputPtr = unat byte" and "even (unat byte)"
    and "unat byte \<le> unat (num_bytes AND 0xFFFFFFFE)"
  shows "unpack8_ssse3_loop num_bytes byte out_buf outputPtr in_buf inputPtr =
     Some (num_bytes AND 0xFFFFFFFE,
           take (8 * unat byte) out_buf @
           concat (map (\<lambda>i. unpacked (in_buf ! i))
                     [unat byte ..< unat (num_bytes AND 0xFFFFFFFE)]) @
           drop (8 * unat (num_bytes AND 0xFFFFFFFE)) out_buf,
           8 * unat (num_bytes AND 0xFFFFFFFE), unat (num_bytes AND 0xFFFFFFFE))"
  using assms
proof (induction "unat (num_bytes AND 0xFFFFFFFE) - unat byte"
    arbitrary: byte out_buf outputPtr inputPtr rule: less_induct)
  case less
  let ?fast = "num_bytes AND 0xFFFFFFFE"
  show ?case
  proof (cases "byte < ?fast")
    case False
    with less.prems have "unat byte = unat ?fast"
      by (simp add: word_less_nat_alt)
    then have "byte = ?fast" by (simp only: word_unat_eq_iff)
    then show ?thesis
      using less.prems by (subst unpack8_ssse3_loop.simps) simp
  next
    case True
    then have lt: "unat byte < unat ?fast" by (simp add: word_less_nat_alt)
    have "unat byte + 2 \<le> unat ?fast"
      using lt fast_even [of num_bytes] \<open>even (unat byte)\<close> by presburger
    then have le2: "unat byte + 2 \<le> unat num_bytes" and lef: "unat byte + 2 \<le> unat ?fast"
      using fast_le [of num_bytes] by simp_all
    have "unat num_bytes < 2 ^ 32" using unsigned_less [of num_bytes] by simp
    with le2 have suc: "unat (byte + 2) = unat byte + 2"
      using unat_add_lem [of byte 2] by simp
    let ?v = "unpacked (in_buf ! inputPtr) @ unpacked (in_buf ! (inputPtr + 1))"
    let ?m = "take outputPtr out_buf @ ?v @ drop (outputPtr + 16) out_buf"
    have a: "inputPtr + 2 \<le> length in_buf" and b: "outputPtr + 16 \<le> length out_buf"
      using less.prems le2 by simp_all
    have step: "unpack8_ssse3_loop num_bytes byte out_buf outputPtr in_buf inputPtr =
       unpack8_ssse3_loop num_bytes (byte + 2) ?m (outputPtr + 16) in_buf (inputPtr + 2)"
      by (subst unpack8_ssse3_loop.simps) (simp only: True if_True unpack16_step [OF a b])
    have len: "length ?m = length out_buf"
      using b by (simp add: length_unpacked)
    have "unpack8_ssse3_loop num_bytes (byte + 2) ?m (outputPtr + 16) in_buf (inputPtr + 2) =
       Some (?fast,
           take (8 * unat (byte + 2)) ?m @
           concat (map (\<lambda>i. unpacked (in_buf ! i)) [unat (byte + 2) ..< unat ?fast]) @
           drop (8 * unat ?fast) ?m,
           8 * unat ?fast, unat ?fast)"
      using less.prems lt suc lef len by (intro less.hyps) simp_all
    moreover have "take (8 * unat (byte + 2)) ?m =
        take (8 * unat byte) out_buf @ unpacked (in_buf ! unat byte) @
          unpacked (in_buf ! (unat byte + 1))"
      using less.prems b suc by (simp add: length_unpacked)
    moreover have "drop (8 * unat ?fast) ?m = drop (8 * unat ?fast) out_buf"
    proof -
      from lef obtain d where d: "8 * unat ?fast = 8 * unat byte + 16 + d"
        using le_Suc_ex [of "8 * unat byte + 16" "8 * unat ?fast"] by auto
      show ?thesis
        using less.prems b unfolding d by (simp add: length_unpacked add.commute)
    qed
    moreover have "[unat byte ..< unat ?fast] =
        unat byte # (unat byte + 1) # [unat (byte + 2) ..< unat ?fast]"
      using lef suc by (simp add: upt_conv_Cons)
    ultimately show ?thesis
      by (simp add: step)
  qed
qed

lemma unpack8_ssse3_eq:
  assumes "8 * unat num_bytes \<le> length out_buf" and "unat num_bytes \<le> length in_buf"
  shows "volk_8u_unpack8_8u_u_ssse3 out_buf in_buf num_bytes =
     Some (concat (map (\<lambda>i. unpacked (in_buf ! i)) [0 ..< unat num_bytes]) @
           drop (8 * unat num_bytes) out_buf)"
proof -
  let ?fast = "num_bytes AND 0xFFFFFFFE"
  let ?f = "\<lambda>i. unpacked (in_buf ! i)"
  let ?m = "concat (map ?f [0 ..< unat ?fast]) @ drop (8 * unat ?fast) out_buf"
  have le: "unat ?fast \<le> unat num_bytes" by (rule fast_le)
  have vec: "unpack8_ssse3_loop num_bytes 0 out_buf 0 in_buf 0 =
      Some (?fast, ?m, 8 * unat ?fast, unat ?fast)"
    using assms by (subst unpack8_ssse3_loop_eq) simp_all
  have lc: "length (concat (map ?f [0 ..< unat ?fast])) = 8 * unat ?fast"
    by (simp add: length_concat_unpacked)
  have len: "length ?m = length out_buf"
    using assms le by (simp add: lc)
  have tail: "unpack8_loop num_bytes ?fast ?m (8 * unat ?fast) in_buf (unat ?fast) =
      Some (take (8 * unat ?fast) ?m @ concat (map ?f [unat ?fast ..< unat num_bytes]) @
            drop (8 * unat num_bytes) ?m)"
    using assms le len by (intro unpack8_loop_eq) simp_all
  have "take (8 * unat ?fast) ?m = concat (map ?f [0 ..< unat ?fast])"
    by (simp add: lc)
  moreover have "drop (8 * unat num_bytes) ?m = drop (8 * unat num_bytes) out_buf"
  proof -
    from le obtain d where d: "unat num_bytes = unat ?fast + d"
      using le_Suc_ex by blast
    show ?thesis
      unfolding d by (simp add: lc add.commute distrib_left)
  qed
  moreover have "concat (map ?f [0 ..< unat ?fast]) @ concat (map ?f [unat ?fast ..< unat num_bytes]) =
      concat (map ?f [0 ..< unat num_bytes])"
  proof -
    from le obtain k where k: "unat num_bytes = unat ?fast + k"
      using le_Suc_ex by blast
    show ?thesis
      unfolding k by (simp only: upt_add_eq_append [OF le0] map_append concat_append)
  qed
  ultimately show ?thesis
    unfolding volk_8u_unpack8_8u_u_ssse3_def by (simp add: vec tail)
qed

section \<open>Packing what was unpacked\<close>

lemma unpacked_bits:
  "unpacked b = [of_bool (bit b 7), of_bool (bit b 6), of_bool (bit b 5), of_bool (bit b 4),
                 of_bool (bit b 3), of_bool (bit b 2), of_bool (bit b 1), of_bool (bit b 0)]"
  using drop_bit_and_pow [of 7 b] drop_bit_and_pow [of 6 b] drop_bit_and_pow [of 5 b]
    drop_bit_and_pow [of 4 b] drop_bit_and_pow [of 3 b] drop_bit_and_pow [of 2 b]
    drop_bit_and_pow [of 1 b] drop_bit_and_pow [of 0 b]
  by (simp add: unpacked_def)

lemma pack_of_bits:
  "push_bit 7 (of_bool (bit b 7)) OR push_bit 6 (of_bool (bit b 6)) OR
   push_bit 5 (of_bool (bit b 5)) OR push_bit 4 (of_bool (bit b 4)) OR
   push_bit 3 (of_bool (bit b 3)) OR push_bit 2 (of_bool (bit b 2)) OR
   push_bit 1 (of_bool (bit b 1)) OR of_bool (bit b 0) = (b :: byte)"
proof (rule bit_eqI)
  fix n
  assume "possible_bit TYPE(byte) n"
  then have n: "n < 8" by (simp add: possible_bit_word)
  have "[bit b 0, bit b 1, bit b 2, bit b 3, bit b 4, bit b 5, bit b 6, bit b 7] ! n = bit b n"
    using less8 [OF n] by (elim insertE emptyE) simp_all
  then show "bit (push_bit 7 (of_bool (bit b 7)) OR push_bit 6 (of_bool (bit b 6)) OR
       push_bit 5 (of_bool (bit b 5)) OR push_bit 4 (of_bool (bit b 4)) OR
       push_bit 3 (of_bool (bit b 3)) OR push_bit 2 (of_bool (bit b 2)) OR
       push_bit 1 (of_bool (bit b 1)) OR of_bool (bit b 0) :: byte) n = bit b n"
    by (simp only: bit_or_chain [OF n])
qed

lemma of_bool_and1: "(of_bool c :: byte) AND 1 = of_bool c"
  by (cases c) simp_all

lemma packed_unpacked:
  assumes "\<And>k. k < 8 \<Longrightarrow> tmp ! (p + k) = unpacked b ! k"
  shows "packed tmp p = b"
proof -
  have "tmp ! p = of_bool (bit b 7)" "tmp ! (p + 1) = of_bool (bit b 6)"
    "tmp ! (p + 2) = of_bool (bit b 5)" "tmp ! (p + 3) = of_bool (bit b 4)"
    "tmp ! (p + 4) = of_bool (bit b 3)" "tmp ! (p + 5) = of_bool (bit b 2)"
    "tmp ! (p + 6) = of_bool (bit b 1)" "tmp ! (p + 7) = of_bool (bit b 0)"
    using assms [of 0] assms [of 1] assms [of 2] assms [of 3] assms [of 4] assms [of 5]
      assms [of 6] assms [of 7]
    by (simp_all add: unpacked_bits)
  then show ?thesis
    by (simp only: packed_def of_bool_and1 pack_of_bits)
qed

lemma nth_concat_unpacked:
  "i < n \<Longrightarrow> k < 8 \<Longrightarrow>
   (concat (map (\<lambda>j. unpacked (f j)) [0 ..< n]) @ rest) ! (8 * i + k) = unpacked (f i) ! k"
proof (induction n arbitrary: rest)
  case 0
  then show ?case by simp
next
  case (Suc n)
  show ?case
  proof (cases "i < n")
    case True
    from Suc.IH [OF True Suc.prems(2), of "unpacked (f n) @ rest"] show ?thesis
      by simp
  next
    case False
    with Suc.prems have "i = n" by simp
    then show ?thesis
      using Suc.prems(2)
      by (simp add: nth_append length_concat_unpacked length_unpacked)
  qed
qed

section \<open>Claims about the unpacking kernel\<close>

text \<open>
  Claim C5. For every \<open>num_bytes\<close>, every input buffer of at least \<open>num_bytes\<close> bytes
  and every output buffer of at least \<open>8 * num_bytes\<close> bytes,
  \<^verbatim>\<open>volk_8u_unpack8_8u_u_ssse3\<close> returns, and leaves the output buffer exactly as
  \<^verbatim>\<open>volk_8u_unpack8_8u_generic\<close> leaves it.
\<close>

theorem unpack8_u_ssse3_generic:
  assumes "8 * unat num_bytes \<le> length out_buf" and "unat num_bytes \<le> length in_buf"
  shows "\<exists>r. volk_8u_unpack8_8u_generic out_buf in_buf num_bytes = Some r \<and>
             volk_8u_unpack8_8u_u_ssse3 out_buf in_buf num_bytes = Some r"
  using assms by (simp add: unpack8_generic_eq unpack8_ssse3_eq)

theorem unpack8_u_ssse3_generic_witness:
  "\<exists>r. volk_8u_unpack8_8u_generic (replicate 24 0) [0xA5, 0x3C, 0xFF] 3 = Some r \<and>
       volk_8u_unpack8_8u_u_ssse3 (replicate 24 0) [0xA5, 0x3C, 0xFF] 3 = Some r"
proof -
  have a: "8 * unat (3 :: 32 word) \<le> length (replicate 24 (0 :: byte))" by simp
  have b: "unat (3 :: 32 word) \<le> length [0xA5, 0x3C, 0xFF :: byte]" by simp
  show ?thesis by (rule unpack8_u_ssse3_generic [OF a b])
qed

text \<open>
  Claim C9. Pack after unpack is the identity: for every byte count \<open>n\<close> and every input
  buffer \<open>x\<close> of at least \<open>n\<close> bytes, \<^verbatim>\<open>volk_8u_unpack8_8u_generic(tmp, x, n)\<close>
  followed by \<^verbatim>\<open>volk_8u_pack8_8u_generic(y, tmp, n)\<close> returns, and the first \<open>n\<close>
  bytes of \<open>y\<close> are then the first \<open>n\<close> bytes of \<open>x\<close>.
\<close>

theorem pack8_unpack8_identity:
  assumes "unat n \<le> length x" and "8 * unat n \<le> length tmp" and "unat n \<le> length y"
  shows "\<exists>tmp' y'. volk_8u_unpack8_8u_generic tmp x n = Some tmp' \<and>
           volk_8u_pack8_8u_generic y tmp' n = Some y' \<and>
           take (unat n) y' = take (unat n) x"
proof -
  let ?tmp = "concat (map (\<lambda>i. unpacked (x ! i)) [0 ..< unat n]) @ drop (8 * unat n) tmp"
  have un: "volk_8u_unpack8_8u_generic tmp x n = Some ?tmp"
    using assms by (simp add: unpack8_generic_eq)
  have len: "length ?tmp = length tmp"
    using assms by (simp add: length_concat_unpacked)
  have pk: "volk_8u_pack8_8u_generic y ?tmp n =
      Some (map (\<lambda>i. packed ?tmp (8 * i)) [0 ..< unat n] @ drop (unat n) y)"
    using assms len by (intro pack8_generic_eq) simp_all
  have "packed ?tmp (8 * i) = x ! i" if "i < unat n" for i
    using that by (intro packed_unpacked nth_concat_unpacked)
  then have "map (\<lambda>i. packed ?tmp (8 * i)) [0 ..< unat n] = map (\<lambda>i. x ! i) [0 ..< unat n]"
    by simp
  also have "\<dots> = take (unat n) x"
    using assms(1) by (intro nth_equalityI) simp_all
  finally have "take (unat n) (map (\<lambda>i. packed ?tmp (8 * i)) [0 ..< unat n] @ drop (unat n) y)
      = take (unat n) x"
    using assms(1) by simp
  with un pk show ?thesis by blast
qed

theorem pack8_unpack8_identity_witness:
  "\<exists>tmp' y'. volk_8u_unpack8_8u_generic (replicate 16 0) [0xA5, 0x3C] 2 = Some tmp' \<and>
           volk_8u_pack8_8u_generic [0, 0] tmp' 2 = Some y' \<and>
           take (unat (2 :: 32 word)) y' = take (unat (2 :: 32 word)) [0xA5, 0x3C]"
proof -
  have a: "unat (2 :: 32 word) \<le> length [0xA5, 0x3C :: byte]" by simp
  have b: "8 * unat (2 :: 32 word) \<le> length (replicate 16 (0 :: byte))" by simp
  have c: "unat (2 :: 32 word) \<le> length [0, 0 :: byte]" by simp
  show ?thesis by (rule pack8_unpack8_identity [OF a b c])
qed

section \<open>What the exclusive-or loops compute\<close>

lemma exor_loop_eq:
  "outputVector = unat i \<Longrightarrow> inputVector0 = unat i \<Longrightarrow> inputVector1 = unat i \<Longrightarrow>
   unat i \<le> unat num_bytes \<Longrightarrow> unat num_bytes \<le> length out_buf \<Longrightarrow>
   unat num_bytes \<le> length in0 \<Longrightarrow> unat num_bytes \<le> length in1 \<Longrightarrow>
   exor_loop num_bytes i out_buf outputVector in0 inputVector0 in1 inputVector1 =
     Some (take (unat i) out_buf @
           map (\<lambda>j. in0 ! j XOR in1 ! j) [unat i ..< unat num_bytes] @
           drop (unat num_bytes) out_buf)"
proof (induction num_bytes i out_buf outputVector in0 inputVector0 in1 inputVector1
    rule: exor_loop.induct)
  case (1 num_bytes i out_buf outputVector in0 inputVector0 in1 inputVector1)
  show ?case
  proof (cases "i < num_bytes")
    case False
    with "1.prems" have "unat i = unat num_bytes"
      by (simp add: word_less_nat_alt)
    with False show ?thesis
      by (subst exor_loop.simps) simp
  next
    case True
    then have lt: "unat i < unat num_bytes" by (simp add: word_less_nat_alt)
    have suc: "unat (i + 1) = Suc (unat i)" using True by (rule unat_word_Suc)
    let ?m = "out_buf[outputVector := in0 ! inputVector0 XOR in1 ! inputVector1]"
    have l0: "load in0 inputVector0 = Some (in0 ! inputVector0)"
      and l1: "load in1 inputVector1 = Some (in1 ! inputVector1)"
      and st: "store out_buf outputVector (in0 ! inputVector0 XOR in1 ! inputVector1) = Some ?m"
      using "1.prems" lt by (simp_all add: load_def store_def)
    have "exor_loop num_bytes (i + 1) ?m (outputVector + 1) in0 (inputVector0 + 1)
          in1 (inputVector1 + 1) =
       Some (take (unat (i + 1)) ?m @
             map (\<lambda>j. in0 ! j XOR in1 ! j) [unat (i + 1) ..< unat num_bytes] @
             drop (unat num_bytes) ?m)"
      using "1.prems" lt suc by (intro "1.IH" [OF True l0 l1 st]) simp_all
    moreover have "take (unat (i + 1)) ?m =
        take (unat i) out_buf @ [in0 ! unat i XOR in1 ! unat i]"
      using "1.prems" lt suc by (simp add: take_Suc_conv_app_nth)
    moreover have "drop (unat num_bytes) ?m = drop (unat num_bytes) out_buf"
      using "1.prems" lt by simp
    moreover have "[unat i ..< unat num_bytes] = unat i # [unat (i + 1) ..< unat num_bytes]"
      using lt suc by (simp add: upt_conv_Cons)
    ultimately show ?thesis
      using True l0 l1 st by (subst exor_loop.simps) simp
  qed
qed

lemma exor_generic_eq:
  "unat num_bytes \<le> length out_buf \<Longrightarrow> unat num_bytes \<le> length in0 \<Longrightarrow>
   unat num_bytes \<le> length in1 \<Longrightarrow>
   volk_8u_x2_exor_8u_generic out_buf in0 in1 num_bytes =
     Some (map (\<lambda>j. in0 ! j XOR in1 ! j) [0 ..< unat num_bytes] @
           drop (unat num_bytes) out_buf)"
  unfolding volk_8u_x2_exor_8u_generic_def
  by (subst exor_loop_eq) simp_all

lemma xor32:
  assumes "p + 32 \<le> length in0" and "p + 32 \<le> length in1"
  shows "mm256_xor_ps (take 32 (drop p in0)) (take 32 (drop p in1)) =
         map (\<lambda>j. in0 ! j XOR in1 ! j) [p ..< p + 32]"
  using assms unfolding mm256_xor_ps_def
  by (intro nth_equalityI) simp_all

lemma exor32_step:
  assumes "p + 32 \<le> length in0" and "p + 32 \<le> length in1" and "q + 32 \<le> length out_buf"
  shows "(do {
        src0 \<leftarrow> mm256_loadu_ps in0 p;
        src1 \<leftarrow> mm256_loadu_ps in1 p;
        let dst = mm256_xor_ps src0 src1;
        m \<leftarrow> mm256_storeu_ps out_buf q dst;
        f m }) =
     f (take q out_buf @ map (\<lambda>j. in0 ! j XOR in1 ! j) [p ..< p + 32] @
        drop (q + 32) out_buf)"
proof -
  have len: "length (map (\<lambda>j. in0 ! j XOR in1 ! j) [p ..< p + 32]) \<le> 32" by simp
  show ?thesis
    using assms
    by (simp only: mm256_loadu_ps_def mm256_storeu_ps_def Let_def if_True bind.bind_lunit
        xor32 [OF assms(1,2)] take_all [OF len])
qed

text \<open>
  The vector loop, entered with all three pointers \<open>i\<close> bytes into their buffers,
  leaves with all three \<open>i'\<close> bytes into them, having written the positions \<open>i\<close> to
  \<open>i' - 1\<close>, and \<open>i'\<close> is not beyond \<open>num_bytes\<close>. The loop compares the byte count
  \<open>i\<close> with the number of 32-byte blocks, so it stops early and leaves most of a long
  buffer to the scalar tail.
\<close>

lemma exor_u_avx_loop_eq:
  assumes "unat num_bytes \<le> length out_buf" and "unat num_bytes \<le> length in0"
    and "unat num_bytes \<le> length in1" and "unat i \<le> unat num_bytes"
  shows "\<exists>i'. exor_u_avx_loop num_bytes i out_buf (unat i) in0 (unat i) in1 (unat i) =
           Some (i',
                 take (unat i) out_buf @ map (\<lambda>j. in0 ! j XOR in1 ! j) [unat i ..< unat i'] @
                 drop (unat i') out_buf,
                 unat i', unat i', unat i') \<and>
         unat i \<le> unat i' \<and> unat i' \<le> unat num_bytes"
  using assms
proof (induction "unat (num_bytes div 32) - unat i" arbitrary: i out_buf rule: less_induct)
  case less
  show ?case
  proof (cases "i < num_bytes div 32")
    case False
    then have "exor_u_avx_loop num_bytes i out_buf (unat i) in0 (unat i) in1 (unat i) =
        Some (i, out_buf, unat i, unat i, unat i)"
      by (subst exor_u_avx_loop.simps) simp
    with less.prems show ?thesis
      by (intro exI [of _ i]) simp
  next
    case True
    then have lt: "unat i < unat (num_bytes div 32)" by (simp add: word_less_nat_alt)
    then have lt': "unat i < unat num_bytes div 32" by (simp add: unat_div)
    then have le32: "unat i + 32 \<le> unat num_bytes" by arith
    have "unat num_bytes < 2 ^ 32" using unsigned_less [of num_bytes] by simp
    with le32 have suc: "unat (i + 32) = unat i + 32"
      using unat_add_lem [of i 32] by simp
    let ?x = "\<lambda>j. in0 ! j XOR in1 ! j"
    let ?m = "take (unat i) out_buf @ map ?x [unat i ..< unat i + 32] @
              drop (unat i + 32) out_buf"
    have a: "unat i + 32 \<le> length in0" and b: "unat i + 32 \<le> length in1"
      and c: "unat i + 32 \<le> length out_buf"
      using less.prems le32 by simp_all
    have step: "exor_u_avx_loop num_bytes i out_buf (unat i) in0 (unat i) in1 (unat i) =
        exor_u_avx_loop num_bytes (i + 32) ?m (unat (i + 32)) in0 (unat (i + 32))
          in1 (unat (i + 32))"
      unfolding suc
      by (subst exor_u_avx_loop.simps) (simp only: True if_True exor32_step [OF a b c])
    have len: "length ?m = length out_buf"
      using c by simp
    have "\<exists>i'. exor_u_avx_loop num_bytes (i + 32) ?m (unat (i + 32)) in0 (unat (i + 32))
             in1 (unat (i + 32)) =
           Some (i',
                 take (unat (i + 32)) ?m @ map ?x [unat (i + 32) ..< unat i'] @
                 drop (unat i') ?m,
                 unat i', unat i', unat i') \<and>
         unat (i + 32) \<le> unat i' \<and> unat i' \<le> unat num_bytes"
      using less.prems lt suc le32 len by (intro less.hyps) simp_all
    then obtain i' where
      res: "exor_u_avx_loop num_bytes (i + 32) ?m (unat (i + 32)) in0 (unat (i + 32))
             in1 (unat (i + 32)) =
           Some (i',
                 take (unat (i + 32)) ?m @ map ?x [unat (i + 32) ..< unat i'] @
                 drop (unat i') ?m,
                 unat i', unat i', unat i')"
      and ge: "unat (i + 32) \<le> unat i'" and le: "unat i' \<le> unat num_bytes"
      by blast
    have t: "take (unat (i + 32)) ?m = take (unat i) out_buf @ map ?x [unat i ..< unat i + 32]"
      using c by (simp add: suc)
    have d: "drop (unat i') ?m = drop (unat i') out_buf"
    proof -
      from ge obtain e where e: "unat i' = unat i + 32 + e"
        unfolding suc using le_Suc_ex by blast
      show ?thesis
        using c unfolding e by (simp add: add.commute)
    qed
    have u: "map ?x [unat i ..< unat i + 32] @ map ?x [unat (i + 32) ..< unat i'] =
        map ?x [unat i ..< unat i']"
    proof -
      from ge obtain e where e: "unat i' = unat i + 32 + e"
        unfolding suc using le_Suc_ex by blast
      have "[unat i ..< unat i + 32 + e] = [unat i ..< unat i + 32] @ [unat i + 32 ..< unat i + 32 + e]"
        by (rule upt_add_eq_append) simp
      then show ?thesis
        unfolding e suc by (simp only: map_append)
    qed
    have "exor_u_avx_loop num_bytes i out_buf (unat i) in0 (unat i) in1 (unat i) =
        Some (i', take (unat i) out_buf @ map ?x [unat i ..< unat i'] @ drop (unat i') out_buf,
              unat i', unat i', unat i')"
      unfolding step res t d using u by simp
    moreover have "unat i \<le> unat i'" using ge suc by simp
    ultimately show ?thesis using le by blast
  qed
qed

lemma exor_u_avx_eq:
  assumes "unat num_bytes \<le> length out_buf" and "unat num_bytes \<le> length in0"
    and "unat num_bytes \<le> length in1"
  shows "volk_8u_x2_exor_8u_u_avx out_buf in0 in1 num_bytes =
     Some (map (\<lambda>j. in0 ! j XOR in1 ! j) [0 ..< unat num_bytes] @
           drop (unat num_bytes) out_buf)"
proof -
  let ?x = "\<lambda>j. in0 ! j XOR in1 ! j"
  from exor_u_avx_loop_eq [OF assms, of 0] obtain i where
    vec: "exor_u_avx_loop num_bytes 0 out_buf 0 in0 0 in1 0 =
       Some (i, map ?x [0 ..< unat i] @ drop (unat i) out_buf, unat i, unat i, unat i)"
    and le: "unat i \<le> unat num_bytes"
    by auto
  let ?m = "map ?x [0 ..< unat i] @ drop (unat i) out_buf"
  have len: "length ?m = length out_buf"
    using assms le by simp
  have tail: "exor_loop num_bytes i ?m (unat i) in0 (unat i) in1 (unat i) =
      Some (take (unat i) ?m @ map ?x [unat i ..< unat num_bytes] @ drop (unat num_bytes) ?m)"
    using assms le len by (intro exor_loop_eq) simp_all
  have "take (unat i) ?m = map ?x [0 ..< unat i]" by simp
  moreover have "drop (unat num_bytes) ?m = drop (unat num_bytes) out_buf"
    using le by simp
  moreover have "map ?x [0 ..< unat i] @ map ?x [unat i ..< unat num_bytes] =
      map ?x [0 ..< unat num_bytes]"
  proof -
    from le obtain k where k: "unat num_bytes = unat i + k"
      using le_Suc_ex by blast
    show ?thesis
      unfolding k by (simp only: upt_add_eq_append [OF le0] map_append)
  qed
  ultimately show ?thesis
    unfolding volk_8u_x2_exor_8u_u_avx_def by (simp add: vec tail)
qed

text \<open>
  On addresses that are multiples of 32 the aligned loads and stores are the unaligned
  ones, and the pointers stay multiples of 32; elsewhere the aligned store faults.
\<close>

lemma exor_a_u_avx_loop:
  "32 dvd out_addr \<Longrightarrow> 32 dvd in0_addr \<Longrightarrow> 32 dvd in1_addr \<Longrightarrow>
   32 dvd outputVector \<Longrightarrow> 32 dvd inputVector0 \<Longrightarrow> 32 dvd inputVector1 \<Longrightarrow>
   exor_a_avx_loop out_addr in0_addr in1_addr num_bytes i out_buf outputVector
     in0 inputVector0 in1 inputVector1 =
   exor_u_avx_loop num_bytes i out_buf outputVector in0 inputVector0 in1 inputVector1"
proof (induction out_addr in0_addr in1_addr num_bytes i out_buf outputVector
    in0 inputVector0 in1 inputVector1 rule: exor_a_avx_loop.induct)
  case (1 out_addr in0_addr in1_addr num_bytes i out_buf outputVector in0 inputVector0
      in1 inputVector1)
  show ?case
  proof (cases "i < num_bytes div 32")
    case False
    then show ?thesis
      by (subst exor_a_avx_loop.simps, subst exor_u_avx_loop.simps) simp
  next
    case True
    have l0: "mm256_load_ps in0_addr in0 inputVector0 = mm256_loadu_ps in0 inputVector0"
      and l1: "mm256_load_ps in1_addr in1 inputVector1 = mm256_loadu_ps in1 inputVector1"
      and st: "mm256_store_ps out_addr out_buf outputVector v =
               mm256_storeu_ps out_buf outputVector v" for v
      using "1.prems" by (simp_all add: mm256_load_ps_def mm256_store_ps_def)
    have rec: "exor_a_avx_loop out_addr in0_addr in1_addr num_bytes (i + 32) m
          (outputVector + 32) in0 (inputVector0 + 32) in1 (inputVector1 + 32) =
        exor_u_avx_loop num_bytes (i + 32) m (outputVector + 32) in0 (inputVector0 + 32)
          in1 (inputVector1 + 32)"
      if "mm256_loadu_ps in0 inputVector0 = Some a" "mm256_loadu_ps in1 inputVector1 = Some b"
        "mm256_storeu_ps out_buf outputVector (mm256_xor_ps a b) = Some m" for a b m
      using "1.prems" that by (intro "1.IH" [OF True, of a b "mm256_xor_ps a b" m])
        (simp_all add: l0 l1 st)
    show ?thesis
      by (subst exor_a_avx_loop.simps, subst exor_u_avx_loop.simps)
        (auto simp add: True l0 l1 st rec Let_def split: Option.bind_splits)
  qed
qed

lemma exor_a_avx_misaligned:
  "volk_8u_x2_exor_8u_a_avx 65 96 128 (replicate 32 0) (replicate 32 0xF0) (replicate 32 0x3C) 32
     = None"
  unfolding volk_8u_x2_exor_8u_a_avx_def
  by (subst exor_a_avx_loop.simps)
    (simp add: mm256_load_ps_def mm256_loadu_ps_def mm256_store_ps_def)

section \<open>Claims about the exclusive-or kernel\<close>

text \<open>
  Claim C4. For every \<open>num_bytes\<close> and all buffers of at least \<open>num_bytes\<close> bytes,
  \<^verbatim>\<open>volk_8u_x2_exor_8u_u_avx\<close> returns and leaves the output buffer exactly as
  \<^verbatim>\<open>volk_8u_x2_exor_8u_generic\<close> leaves it: every output byte \<open>j < num_bytes\<close> is
  \<^verbatim>\<open>inputVector0[j] ^ inputVector1[j]\<close>. The vector loop hands over to the scalar tail
  with the counter and all three pointers at the same position \<open>i \<le> num_bytes\<close>, so that
  the vector loop covers the positions below \<open>i\<close> and the tail the positions from \<open>i\<close>
  to \<open>num_bytes - 1\<close>, each position once.
\<close>

theorem exor_u_avx_generic:
  assumes "unat num_bytes \<le> length out_buf" and "unat num_bytes \<le> length in0"
    and "unat num_bytes \<le> length in1"
  shows "\<exists>r. volk_8u_x2_exor_8u_generic out_buf in0 in1 num_bytes = Some r \<and>
             volk_8u_x2_exor_8u_u_avx out_buf in0 in1 num_bytes = Some r \<and>
             length r = length out_buf \<and>
             (\<forall>j < unat num_bytes. r ! j = in0 ! j XOR in1 ! j) \<and>
             (\<exists>i m. exor_u_avx_loop num_bytes 0 out_buf 0 in0 0 in1 0 =
                      Some (i, m, unat i, unat i, unat i) \<and>
                    unat i \<le> unat num_bytes \<and>
                    exor_loop num_bytes i m (unat i) in0 (unat i) in1 (unat i) = Some r)"
proof -
  let ?x = "\<lambda>j. in0 ! j XOR in1 ! j"
  let ?r = "map ?x [0 ..< unat num_bytes] @ drop (unat num_bytes) out_buf"
  have g: "volk_8u_x2_exor_8u_generic out_buf in0 in1 num_bytes = Some ?r"
    using assms by (rule exor_generic_eq)
  have u: "volk_8u_x2_exor_8u_u_avx out_buf in0 in1 num_bytes = Some ?r"
    using assms by (rule exor_u_avx_eq)
  have len: "length ?r = length out_buf"
    using assms by simp
  have nth: "\<forall>j < unat num_bytes. ?r ! j = in0 ! j XOR in1 ! j"
    by (simp add: nth_append)
  from exor_u_avx_loop_eq [OF assms, of 0] obtain i m where
    vec: "exor_u_avx_loop num_bytes 0 out_buf 0 in0 0 in1 0 = Some (i, m, unat i, unat i, unat i)"
    and le: "unat i \<le> unat num_bytes"
    by auto
  from u have "exor_loop num_bytes i m (unat i) in0 (unat i) in1 (unat i) = Some ?r"
    unfolding volk_8u_x2_exor_8u_u_avx_def by (simp add: vec)
  with vec le have "\<exists>i m. exor_u_avx_loop num_bytes 0 out_buf 0 in0 0 in1 0 =
                      Some (i, m, unat i, unat i, unat i) \<and>
                    unat i \<le> unat num_bytes \<and>
                    exor_loop num_bytes i m (unat i) in0 (unat i) in1 (unat i) = Some ?r"
    by blast
  with g u len nth show ?thesis by blast
qed

theorem exor_u_avx_generic_witness:
  "\<exists>r. volk_8u_x2_exor_8u_generic (replicate 33 0) (replicate 33 0xF0) (replicate 33 0x3C) 33
         = Some r \<and>
       volk_8u_x2_exor_8u_u_avx (replicate 33 0) (replicate 33 0xF0) (replicate 33 0x3C) 33
         = Some r"
proof -
  have a: "unat (33 :: 32 word) \<le> length (replicate 33 (0 :: byte))" by simp
  have b: "unat (33 :: 32 word) \<le> length (replicate 33 (0xF0 :: byte))" by simp
  have c: "unat (33 :: 32 word) \<le> length (replicate 33 (0x3C :: byte))" by simp
  from exor_u_avx_generic [OF a b c] show ?thesis by blast
qed

text \<open>
  Claim C7. Under the alignment precondition of the aligned variant, that the three
  pointers hold multiples of 32, \<^verbatim>\<open>volk_8u_x2_exor_8u_a_avx\<close> and
  \<^verbatim>\<open>volk_8u_x2_exor_8u_u_avx\<close> compute the same output buffer, for every \<open>num_bytes\<close>
  and all buffers; on buffers of at least \<open>num_bytes\<close> bytes both return.
\<close>

theorem exor_a_avx_u_avx:
  assumes "32 dvd out_addr" and "32 dvd in0_addr" and "32 dvd in1_addr"
  shows "volk_8u_x2_exor_8u_a_avx out_addr in0_addr in1_addr out_buf in0 in1 num_bytes =
           volk_8u_x2_exor_8u_u_avx out_buf in0 in1 num_bytes \<and>
         (unat num_bytes \<le> length out_buf \<and> unat num_bytes \<le> length in0 \<and>
          unat num_bytes \<le> length in1 \<longrightarrow>
          volk_8u_x2_exor_8u_a_avx out_addr in0_addr in1_addr out_buf in0 in1 num_bytes =
            Some (map (\<lambda>j. in0 ! j XOR in1 ! j) [0 ..< unat num_bytes] @
                  drop (unat num_bytes) out_buf))"
proof -
  have "exor_a_avx_loop out_addr in0_addr in1_addr num_bytes 0 out_buf 0 in0 0 in1 0 =
      exor_u_avx_loop num_bytes 0 out_buf 0 in0 0 in1 0"
    using assms by (intro exor_a_u_avx_loop) simp_all
  then have eq: "volk_8u_x2_exor_8u_a_avx out_addr in0_addr in1_addr out_buf in0 in1 num_bytes =
           volk_8u_x2_exor_8u_u_avx out_buf in0 in1 num_bytes"
    by (simp only: volk_8u_x2_exor_8u_a_avx_def volk_8u_x2_exor_8u_u_avx_def)
  show ?thesis
    unfolding eq by (simp add: exor_u_avx_eq)
qed

theorem exor_a_avx_u_avx_witness:
  "volk_8u_x2_exor_8u_a_avx 64 96 128 (replicate 33 0) (replicate 33 0xF0) (replicate 33 0x3C) 33
     = volk_8u_x2_exor_8u_u_avx (replicate 33 0) (replicate 33 0xF0) (replicate 33 0x3C) 33"
proof -
  have a: "(32 :: nat) dvd 64" by simp
  have b: "(32 :: nat) dvd 96" by simp
  have c: "(32 :: nat) dvd 128" by simp
  from exor_a_avx_u_avx [OF a b c] show ?thesis by blast
qed

section \<open>Claims about the kernel headers\<close>

text \<open>
  Claim C1, as stated: every kernel header declares exactly one implementation without a
  required instruction-set extension. The header of \<open>volk_32fc_s32f_atan2_32f\<close> declares
  two, \<open>generic\<close> and \<open>polynomial\<close>, both under \<^verbatim>\<open>#ifdef LV_HAVE_GENERIC\<close>.
\<close>

theorem atan2_two_extension_free:
  "volk_32fc_s32f_atan2_32f_h \<in> set kernel_headers \<and>
   map impl (extension_free_impls volk_32fc_s32f_atan2_32f_h) = [''generic'', ''polynomial''] \<and>
   length (extension_free_impls volk_32fc_s32f_atan2_32f_h) \<noteq> 1"
  by (simp add: kernel_headers_def extension_free_impls_def extension_free_def
      volk_32fc_s32f_atan2_32f_h_def)

text \<open>
  Claim C1, amended: every kernel header declares at least one implementation without a
  required extension, and exactly one implementation named \<open>generic\<close>, which requires
  none.
\<close>

theorem kernel_headers_generic:
  "\<forall>k \<in> set kernel_headers.
     extension_free_impls k \<noteq> [] \<and>
     length (filter (\<lambda>v. impl v = ''generic'') (impls k)) = 1 \<and>
     (\<forall>v \<in> set (impls k). impl v = ''generic'' \<longrightarrow> extension_free v)"
  by (simp add: kernel_headers_def extension_free_impls_def extension_free_def
      volk_32fc_32f_add_32fc_h_def volk_32fc_s32f_atan2_32f_h_def volk_8u_pack8_8u_h_def
      volk_8u_x2_exor_8u_h_def volk_8u_unpack8_8u_h_def volk_32f_asin_32f_h_def
      volk_8u_unpack8puppet_8u_h_def volk_8u_pack8puppet_8u_h_def)

theorem kernel_headers_generic_witness:
  "volk_32f_asin_32f_h \<in> set kernel_headers \<and>
   extension_free_impls volk_32f_asin_32f_h \<noteq> [] \<and>
   length (filter (\<lambda>v. impl v = ''generic'') (impls volk_32f_asin_32f_h)) = 1"
proof -
  have m: "volk_32f_asin_32f_h \<in> set kernel_headers"
    by (simp add: kernel_headers_def)
  from bspec [OF kernel_headers_generic m] m show ?thesis
    by (intro conjI) (elim conjE, assumption)+
qed

section \<open>Claims about the selector\<close>

text \<open>
  Claim C6, as stated: for all capability sets and kernel descriptors, \<open>rank\<close> returns a
  non-empty list. A descriptor that satisfies the registry invariant with an extension-free
  variant that requires aligned pointers has no eligible variant under the alignment hint
  \<open>None\<close>: step 2 excludes the only variant step 1 lets through, and \<open>rank\<close> returns
  the empty list.
\<close>

theorem rank_empty_list:
  "registry_invariant
     \<lparr>operation_name = ''op'',
      variants = [\<lparr>impl_name = ''generic'', required_extension = None,
                   alignment = RequiresAligned\<rparr>]\<rparr> \<and>
   rank no_preference
     \<lparr>operation_name = ''op'',
      variants = [\<lparr>impl_name = ''generic'', required_extension = None,
                   alignment = RequiresAligned\<rparr>]\<rparr>
     \<lparr>extensions = {}, alignment_boundary = 32\<rparr> NoAlignment = Inr []"
  by (simp add: registry_invariant_def rank_def extension_available_def alignment_eligible_def)

text \<open>
  Claim C6, amended: for every capability set and every kernel descriptor that satisfies
  the registry invariant, \<open>rank\<close> returns a non-empty list whose head's required
  extension, if it has one, is in the capability set, provided that the alignment hint is
  \<open>RequiresAligned\<close> or the descriptor's extension-free variant does not require aligned
  pointers. Then the selector does not fail either.
\<close>

theorem rank_head_available:
  assumes inv: "registry_invariant d"
    and al: "alignment_hint = RequiresAligned \<or>
             (\<forall>v \<in> set (variants d). required_extension v = None \<longrightarrow> alignment v = NoAlignment)"
  shows "\<exists>v vs. rank pref d caps alignment_hint = Inr (v # vs) \<and>
           (\<forall>e. required_extension v = Some e \<longrightarrow> e \<in> extensions caps)"
proof -
  let ?avail = "filter (extension_available caps) (variants d)"
  let ?elig = "filter (alignment_eligible alignment_hint) ?avail"
  from inv have "filter (\<lambda>v. required_extension v = None) (variants d) \<noteq> []"
    unfolding registry_invariant_def by auto
  then obtain g where g: "g \<in> set (variants d)" "required_extension g = None"
    by (auto simp: filter_empty_conv)
  then have ga: "g \<in> set ?avail"
    by (simp add: extension_available_def)
  from g al have "alignment_eligible alignment_hint g"
    by (auto simp: alignment_eligible_def)
  with ga have ge: "g \<in> set ?elig" by simp
  have avail: "?avail \<noteq> []" using ga by (auto simp: filter_empty_conv)
  have "set (sort_key (preference_key pref) ?elig) = set ?elig" by simp
  with ge have "sort_key (preference_key pref) ?elig \<noteq> []"
    by (metis empty_iff empty_set)
  then obtain v vs where vs: "sort_key (preference_key pref) ?elig = v # vs"
    by (cases "sort_key (preference_key pref) ?elig") auto
  then have "v \<in> set (sort_key (preference_key pref) ?elig)" by simp
  then have "extension_available caps v" by simp
  then have "\<forall>e. required_extension v = Some e \<longrightarrow> e \<in> extensions caps"
    by (auto simp: extension_available_def)
  moreover have "rank pref d caps alignment_hint = Inr (v # vs)"
    using avail vs by (simp add: rank_def Let_def)
  ultimately show ?thesis by blast
qed

theorem rank_head_available_witness:
  "\<exists>v vs. rank no_preference
      \<lparr>operation_name = ''op'',
       variants = [\<lparr>impl_name = ''generic'', required_extension = None,
                    alignment = NoAlignment\<rparr>,
                  \<lparr>impl_name = ''fast'', required_extension = Some ''X'',
                    alignment = RequiresAligned\<rparr>]\<rparr>
      \<lparr>extensions = {''X''}, alignment_boundary = 32\<rparr> NoAlignment = Inr (v # vs) \<and>
     (\<forall>e. required_extension v = Some e \<longrightarrow>
        e \<in> extensions \<lparr>extensions = {''X''}, alignment_boundary = 32\<rparr>)"
proof -
  let ?d = "\<lparr>operation_name = ''op'',
       variants = [\<lparr>impl_name = ''generic'', required_extension = None,
                    alignment = NoAlignment\<rparr>,
                  \<lparr>impl_name = ''fast'', required_extension = Some ''X'',
                    alignment = RequiresAligned\<rparr>]\<rparr>"
  have a: "registry_invariant ?d"
    by (simp add: registry_invariant_def)
  have b: "NoAlignment = RequiresAligned \<or>
      (\<forall>v \<in> set (variants ?d). required_extension v = None \<longrightarrow> alignment v = NoAlignment)"
    by simp
  show ?thesis
    by (rule rank_head_available [OF a b])
qed

section \<open>Claims about the benchmark harness\<close>

text \<open>
  Claim C8: every element the benchmarked kernel call accesses lies inside its buffer. For
  the implementation \<open>generic\<close>, whose name does not contain \<open>a_\<close>, and the default
  vector length 131071, the buffers have 131071 elements, the pointers are advanced by one
  element, and the kernel is asked for 131071 elements: the last one it accesses is the
  element 131071 of a buffer whose last element is 131070. The extra element
  \<^verbatim>\<open>ref_length += 1\<close> is allocated in the branch of the aligned implementations, whose
  pointers are not advanced.
\<close>

theorem BM_generic_out_of_bounds:
  "BM_volk_32fc_x2_multiply_32fc ''generic'' 131071 =
     \<lparr>buffer_sizes = [131071, 131071, 131071], pointers = [1, 1, 1], num_points = 131071\<rparr> \<and>
   \<not> call_in_bounds (BM_volk_32fc_x2_multiply_32fc ''generic'' 131071) \<and>
   BM_volk_32f_s32f_multiply_32f ''generic'' 131071 =
     \<lparr>buffer_sizes = [131071, 131071], pointers = [1, 1], num_points = 131071\<rparr> \<and>
   \<not> call_in_bounds (BM_volk_32f_s32f_multiply_32f ''generic'' 131071)"
  by (simp add: BM_volk_32fc_x2_multiply_32fc_def BM_volk_32f_s32f_multiply_32f_def
      call_in_bounds_def)

end
